theory Spec2Isabelle
  imports Main "HOL-Library.Word" "HOL-Library.Monad_Syntax"
begin

unbundle bit_operations_syntax

section \<open>The doboz codec (razzie/go-doboz), embedded\<close>

text \<open>
  Conventions of the embedding.
  \<^item> Go's \<open>int\<close> is modelled as \<open>int\<close>: every \<open>int\<close> of the code is a buffer length, a
    position inside a buffer or a small constant, and stays far below \<open>2^63\<close> for every
    slice that can exist. Go's \<open>uint\<close> is a 64-bit word (a 64-bit platform), so the
    hash, the control word and the match codes wrap as they do in the code.
  \<^item> A byte slice is a \<open>byte list\<close> whose capacity is its length.
  \<^item> A Go run-time panic (index or slice bounds out of range) is the value \<open>None\<close>;
    the \<open>Result\<close> codes of the library are ordinary values.
\<close>

type_synonym byte = "8 word"
type_synonym uint = "64 word"

subsection \<open>common.go\<close>

datatype Result =
    RESULT_OK
  | RESULT_ERROR_BUFFER_TOO_SMALL
  | RESULT_ERROR_CORRUPTED_DATA
  | RESULT_ERROR_UNSUPPORTED_VERSION

record Match =
  Length :: int
  Offset :: int

record Header =
  UncompressedSize :: "64 word"
  CompressedSize :: "64 word"
  Version :: int
  IsStored :: bool

definition VERSION :: int where "VERSION = 0"
definition WORD_SIZE :: int where "WORD_SIZE = 4"
definition MIN_MATCH_LENGTH :: int where "MIN_MATCH_LENGTH = 3"
definition MAX_MATCH_LENGTH :: int where "MAX_MATCH_LENGTH = 255 + MIN_MATCH_LENGTH"
definition MAX_MATCH_CANDIDATE_COUNT :: int where "MAX_MATCH_CANDIDATE_COUNT = 128"
definition DICTIONARY_SIZE :: int where "DICTIONARY_SIZE = 2 ^ 21"
definition TAIL_LENGTH :: int where "TAIL_LENGTH = 2 * WORD_SIZE"
definition TRAILING_DUMMY_SIZE :: int where "TRAILING_DUMMY_SIZE = WORD_SIZE"
definition MaxInt :: int where "MaxInt = 2 ^ 63 - 1"

text \<open>Indexing and slicing as Go does them: out of range is a panic.\<close>

definition at :: "'a list \<Rightarrow> int \<Rightarrow> 'a option" where
  "at xs i = (if 0 \<le> i \<and> i < int (length xs) then Some (xs ! nat i) else None)"

definition put :: "'a list \<Rightarrow> int \<Rightarrow> 'a \<Rightarrow> 'a list option" where
  "put xs i v = (if 0 \<le> i \<and> i < int (length xs) then Some (xs[nat i := v]) else None)"

text \<open>
  Package \<open>encoding/binary\<close>, little endian: \<open>le_word\<close> reads a word from the bytes
  given, lowest byte first; \<open>le_bytes n w\<close> are the \<open>n\<close> lowest bytes of \<open>w\<close>.
  \<open>read_le n\<close> is \<open>binary.LittleEndian.UintN(source[off:])\<close> and \<open>write_le n\<close> is
  \<open>binary.LittleEndian.PutUintN(destination[off:], w)\<close>, both for \<open>n\<close> bytes.
\<close>

fun le_word :: "byte list \<Rightarrow> 'a::len word" where
  "le_word [] = 0"
| "le_word (b # bs) = ucast b OR push_bit 8 (le_word bs)"

fun le_bytes :: "nat \<Rightarrow> 'a::len word \<Rightarrow> byte list" where
  "le_bytes 0 w = []"
| "le_bytes (Suc n) w = ucast w # le_bytes n (drop_bit 8 w)"

definition read_le :: "nat \<Rightarrow> byte list \<Rightarrow> int \<Rightarrow> ('a::len word) option" where
  "read_le n source off =
     (if 0 \<le> off \<and> off + int n \<le> int (length source)
      then Some (le_word (take n (drop (nat off) source))) else None)"

definition write_le :: "nat \<Rightarrow> byte list \<Rightarrow> int \<Rightarrow> 'a::len word \<Rightarrow> byte list option" where
  "write_le n destination off w =
     (if 0 \<le> off \<and> off + int n \<le> int (length destination)
      then Some (take (nat off) destination @ le_bytes n w @ drop (nat off + n) destination)
      else None)"

text \<open>
  \<open>FastRead\<close> and \<open>FastWrite\<close>. The callers in the compressor and the decompressor pass
  the re-sliced buffer \<open>buffer[offset:]\<close>; the model passes the buffer and the offset, as
  the definitions in common.go take them. For the sizes 2, 3 and 4 \<open>FastWrite\<close> first
  takes the slice \<open>destination[off:off+4]\<close>, so four bytes must be there.
\<close>

definition FastRead :: "byte list \<Rightarrow> int \<Rightarrow> int \<Rightarrow> uint option" where
  "FastRead source sourceOffset sz =
     (if sz = 4 \<or> sz = 3 then
        map_option ucast (read_le 4 source sourceOffset :: 32 word option)
      else if sz = 2 then
        map_option ucast (read_le 2 source sourceOffset :: 16 word option)
      else if sz = 1 then
        map_option ucast (at source sourceOffset)
      else if 0 \<le> sourceOffset \<and> sourceOffset \<le> int (length source) then Some 0
      else None)"

definition FastWrite :: "byte list \<Rightarrow> int \<Rightarrow> uint \<Rightarrow> int \<Rightarrow> byte list option" where
  "FastWrite destination destinationOffset word sz =
     (if sz = 4 \<or> sz = 3 then
        write_le 4 destination destinationOffset (ucast word :: 32 word)
      else if sz = 2 then
        (if destinationOffset + 4 \<le> int (length destination)
         then write_le 2 destination destinationOffset (ucast word :: 16 word) else None)
      else if sz = 1 then
        put destination destinationOffset (ucast word)
      else if 0 \<le> destinationOffset \<and> destinationOffset \<le> int (length destination)
      then Some destination
      else None)"

definition Hash :: "byte list \<Rightarrow> int \<Rightarrow> uint option" where
  "Hash data pos = do {
     b0 \<leftarrow> at data (pos + 0);
     let result = (2166136261 XOR ucast b0) * 16777619;
     b1 \<leftarrow> at data (pos + 1);
     let result = (result XOR ucast b1) * 16777619;
     b2 \<leftarrow> at data (pos + 2);
     let result = (result XOR ucast b2) * 16777619;
     Some result
   }"

subsection \<open>The compressor's header and match codec\<close>

definition getSizeCodedSize :: "int \<Rightarrow> int" where
  "getSizeCodedSize sz = (if sz \<le> 255 then 1 else if sz \<le> 65535 then 2 else 4)"

definition getHeaderSize :: "int \<Rightarrow> int" where
  "getHeaderSize maxCompressedSize = 1 + 2 * getSizeCodedSize maxCompressedSize"

definition GetMaxCompressedSize :: "int \<Rightarrow> int" where
  "GetMaxCompressedSize sz = getHeaderSize MaxInt + sz"

text \<open>
  \<open>encodeMatch\<close> returns the code word and its size; with a destination it also writes
  the word there (at \<open>off\<close>, the caller's \<open>outputBuffer[outputIterator:]\<close>).
\<close>

definition matchCode :: "Match \<Rightarrow> uint \<times> int" where
  "matchCode m =
     (let lengthCode = (word_of_int (Length m - MIN_MATCH_LENGTH) :: uint);
          offsetCode = (word_of_int (Offset m) :: uint)
      in if lengthCode = 0 \<and> offsetCode < 64 then (push_bit 2 offsetCode, 1)
         else if lengthCode = 0 \<and> offsetCode < 16384 then (push_bit 2 offsetCode OR 1, 2)
         else if lengthCode < 16 \<and> offsetCode < 1024 then
           (push_bit 6 offsetCode OR push_bit 2 lengthCode OR 2, 2)
         else if lengthCode < 32 \<and> offsetCode < 65536 then
           (push_bit 8 offsetCode OR push_bit 3 lengthCode OR 3, 3)
         else (push_bit 11 offsetCode OR push_bit 3 lengthCode OR 7, 4))"

definition encodeMatch :: "Match \<Rightarrow> (byte list \<times> int) option \<Rightarrow> (byte list option \<times> int) option" where
  "encodeMatch m destination =
     (let (word, sz) = matchCode m
      in case destination of
           None \<Rightarrow> Some (None, sz)
         | Some (buf, off) \<Rightarrow> do { buf' \<leftarrow> FastWrite buf off word sz; Some (Some buf', sz) })"

definition getMatchCodedSize :: "Match \<Rightarrow> int" where
  "getMatchCodedSize m = snd (matchCode m)"

fun getBestMatch_loop :: "Match list \<Rightarrow> Match \<Rightarrow> Match" where
  "getBestMatch_loop [] bestMatch = bestMatch"
| "getBestMatch_loop (matchCandidate # rest) bestMatch =
     (if Length matchCandidate > getMatchCodedSize matchCandidate then matchCandidate
      else getBestMatch_loop rest bestMatch)"

definition getBestMatch :: "Match list \<Rightarrow> Match" where
  "getBestMatch matchCandidates = getBestMatch_loop matchCandidates \<lparr>Length = 0, Offset = 0\<rparr>"

definition encodeHeader :: "Header \<Rightarrow> int \<Rightarrow> byte list \<Rightarrow> byte list option" where
  "encodeHeader header maxCompressedSize destination =
     (let attributes = (word_of_int (Version header) :: uint);
          sizeCodedSize = (word_of_int (getSizeCodedSize maxCompressedSize) :: uint);
          attributes = attributes OR push_bit 3 (sizeCodedSize - 1);
          attributes = (if IsStored header then attributes OR 128 else attributes)
      in do {
        destination \<leftarrow> put destination 0 (ucast attributes :: byte);
        if sizeCodedSize = 1 then do {
          destination \<leftarrow> put destination (1 + 0) (ucast (UncompressedSize header));
          put destination (1 + 1) (ucast (CompressedSize header))
        } else if sizeCodedSize = 2 then do {
          destination \<leftarrow> write_le 2 destination 1 (ucast (UncompressedSize header) :: 16 word);
          write_le 2 destination (1 + 2) (ucast (CompressedSize header) :: 16 word)
        } else if sizeCodedSize = 4 then do {
          destination \<leftarrow> write_le 4 destination 1 (ucast (UncompressedSize header) :: 32 word);
          write_le 4 destination (1 + 4) (ucast (CompressedSize header) :: 32 word)
        } else if sizeCodedSize = 8 then do {
          destination \<leftarrow> write_le 8 destination 1 (UncompressedSize header);
          write_le 8 destination (1 + 8) (CompressedSize header)
        } else Some destination
      })"

subsection \<open>decompressor.go\<close>

text \<open>The fields of \<open>CompressionInfo\<close> carry a prime: their names are those of \<open>Header\<close>.\<close>

record CompressionInfo =
  UncompressedSize' :: "64 word"
  CompressedSize' :: "64 word"
  Version' :: int

record LookupTable =
  mask' :: uint
  offsetShift :: byte
  lengthMask :: byte
  lengthShift :: byte
  size' :: "8 word"

record Decompressor =
  literalRunLengthTable :: "8 word list"
  lut :: "LookupTable list"

text \<open>The zero value of the struct: both tables are nil slices.\<close>

definition Decompressor0 :: Decompressor where
  "Decompressor0 = \<lparr>literalRunLengthTable = [], lut = []\<rparr>"

definition lut_row :: "uint \<Rightarrow> nat \<Rightarrow> nat \<Rightarrow> nat \<Rightarrow> int \<Rightarrow> LookupTable" where
  "lut_row m os lm ls sz =
     \<lparr>mask' = m, offsetShift = of_nat os, lengthMask = of_nat lm, lengthShift = of_nat ls,
      size' = word_of_int sz\<rparr>"

text \<open>
  The method \<open>initialize\<close> of the decompressor (the dictionary has one of the same name).
  Nothing in the package calls it.
\<close>

definition Decompressor_initialize :: "Decompressor \<Rightarrow> Decompressor" where
  "Decompressor_initialize d = d
     \<lparr>literalRunLengthTable := [4, 0, 1, 0, 2, 0, 1, 0, 3, 0, 1, 0, 2, 0, 1, 0],
      lut := [lut_row 0xff 2 0 0 1,
              lut_row 0xffff 2 0 0 2,
              lut_row 0xffff 6 15 2 2,
              lut_row 0xffffff 8 31 3 3,
              lut_row 0xff 2 0 0 1,
              lut_row 0xffff 2 0 0 2,
              lut_row 0xffff 6 15 2 2,
              lut_row 0xffffffff 11 255 3 4]\<rparr>"

text \<open>\<open>decodeMatch\<close> reads at \<open>off\<close>, the caller's \<open>inputBuffer[inputIterator:]\<close>.\<close>

definition decodeMatch :: "Decompressor \<Rightarrow> byte list \<Rightarrow> int \<Rightarrow> (Match \<times> int) option" where
  "decodeMatch d source off = do {
     word \<leftarrow> FastRead source off WORD_SIZE;
     let i = word AND 7;
     row \<leftarrow> at (lut d) (uint i);
     let match = \<lparr>
       Length = sint ((drop_bit (unat (lengthShift row)) word AND ucast (lengthMask row))
                      + word_of_int MIN_MATCH_LENGTH),
       Offset = sint (drop_bit (unat (offsetShift row)) (word AND mask' row))\<rparr>;
     Some (match, sint (size' row))
   }"

definition Header0 :: Header where
  "Header0 = \<lparr>UncompressedSize = 0, CompressedSize = 0, Version = 0, IsStored = False\<rparr>"

definition decodeHeader :: "byte list \<Rightarrow> (Result \<times> Header \<times> int) option" where
  "decodeHeader source =
     (let header = Header0 in
      if int (length source) < 1 then Some (RESULT_ERROR_BUFFER_TOO_SMALL, header, 0)
      else do {
        a \<leftarrow> at source 0;
        let attributes = (ucast a :: uint);
        let source = drop 1 source;
        let header = header\<lparr>Version := sint (attributes AND 7)\<rparr>;
        let sizeCodedSize = sint (drop_bit 3 attributes AND 7) + 1;
        let headerSize = 1 + 2 * sizeCodedSize;
        if int (length source) < headerSize
        then Some (RESULT_ERROR_BUFFER_TOO_SMALL, header, headerSize)
        else do {
          let header = header\<lparr>IsStored := (attributes AND 128 \<noteq> 0)\<rparr>;
          if sizeCodedSize = 1 then do {
            u \<leftarrow> at source 0;
            c \<leftarrow> at source sizeCodedSize;
            Some (RESULT_OK,
              header\<lparr>UncompressedSize := ucast u, CompressedSize := ucast c\<rparr>,
              headerSize)
          } else if sizeCodedSize = 2 then do {
            u \<leftarrow> (read_le 2 source 0 :: 16 word option);
            c \<leftarrow> (read_le 2 source sizeCodedSize :: 16 word option);
            Some (RESULT_OK,
              header\<lparr>UncompressedSize := ucast u, CompressedSize := ucast c\<rparr>,
              headerSize)
          } else if sizeCodedSize = 4 then do {
            u \<leftarrow> (read_le 4 source 0 :: 32 word option);
            c \<leftarrow> (read_le 4 source sizeCodedSize :: 32 word option);
            Some (RESULT_OK,
              header\<lparr>UncompressedSize := ucast u, CompressedSize := ucast c\<rparr>,
              headerSize)
          } else if sizeCodedSize = 8 then do {
            u \<leftarrow> (read_le 8 source 0 :: 64 word option);
            c \<leftarrow> (read_le 8 source sizeCodedSize :: 64 word option);
            Some (RESULT_OK,
              header\<lparr>UncompressedSize := u, CompressedSize := c\<rparr>,
              headerSize)
          } else Some (RESULT_ERROR_CORRUPTED_DATA, header, headerSize)
        }
      })"

text \<open>The size class that the first byte of a block encodes, as \<open>decodeHeader\<close> reads it.\<close>

definition headerSizeCode :: "byte list \<Rightarrow> int" where
  "headerSizeCode source = sint (drop_bit 3 (ucast (source ! 0) :: uint) AND 7) + 1"

definition CompressionInfo0 :: CompressionInfo where
  "CompressionInfo0 = \<lparr>UncompressedSize' = 0, CompressedSize' = 0, Version' = 0\<rparr>"

definition GetCompressionInfo :: "byte list \<Rightarrow> (Result \<times> CompressionInfo) option" where
  "GetCompressionInfo source = do {
     (decodeHeaderResult, header, _) \<leftarrow> decodeHeader source;
     if decodeHeaderResult \<noteq> RESULT_OK then Some (decodeHeaderResult, CompressionInfo0)
     else Some (RESULT_OK,
       \<lparr>UncompressedSize' = UncompressedSize header,
        CompressedSize' = CompressedSize header,
        Version' = Version header\<rparr>)
   }"

text \<open>
  The state of the decoding loop of \<open>Decompress\<close>: the two iterators, the control word and
  the contents of the destination.
\<close>

record DecodeState =
  inputIterator :: int
  outputIterator :: int
  controlWord :: uint
  outputBuffer :: "byte list"

text \<open>\<open>copy(dst[lo:hi], src[from:])\<close>: as many bytes as both slices hold.\<close>

definition copy_slice :: "byte list \<Rightarrow> int \<Rightarrow> int \<Rightarrow> byte list \<Rightarrow> int \<Rightarrow> byte list option" where
  "copy_slice dst lo hi src from =
     (if 0 \<le> lo \<and> lo \<le> hi \<and> hi \<le> int (length dst) \<and> 0 \<le> from \<and> from \<le> int (length src)
      then let n = min (nat (hi - lo)) (length src - nat from)
           in Some (take (nat lo) dst @ take n (drop (nat from) src) @ drop (nat lo + n) dst)
      else None)"

text \<open>A shift by a signed count panics when the count is negative.\<close>

definition shift_right :: "uint \<Rightarrow> int \<Rightarrow> uint option" where
  "shift_right w n = (if n < 0 then None else Some (drop_bit (nat n) w))"

text \<open>One round of a loop either ends the call with a value or goes on with a new state.\<close>

type_synonym ('r, 's) step = "('r + 's) option"

text \<open>The loop over the literals of the tail, one byte at a time.\<close>

definition tail_step ::
  "byte list \<Rightarrow> int \<Rightarrow> int \<Rightarrow> DecodeState \<Rightarrow> (Result \<times> byte list, DecodeState) step" where
  "tail_step inputBuffer inputEnd outputEnd st =
     (if outputIterator st < outputEnd then
        (if inputIterator st + WORD_SIZE + 1 > inputEnd
         then Some (Inl (RESULT_ERROR_CORRUPTED_DATA, outputBuffer st))
         else do {
           st \<leftarrow> (if controlWord st = 1 then do {
                     w \<leftarrow> FastRead inputBuffer (inputIterator st) WORD_SIZE;
                     Some (st\<lparr>controlWord := w, inputIterator := inputIterator st + WORD_SIZE\<rparr>)
                   } else Some st);
           b \<leftarrow> at inputBuffer (inputIterator st);
           ob \<leftarrow> put (outputBuffer st) (outputIterator st) b;
           Some (Inr \<lparr>inputIterator = inputIterator st + 1,
                      outputIterator = outputIterator st + 1,
                      controlWord = drop_bit 1 (controlWord st),
                      outputBuffer = ob\<rparr>)
         })
      else Some (Inl (RESULT_OK, outputBuffer st)))"

lemma tail_step_measure:
  "tail_step inputBuffer inputEnd outputEnd st = Some (Inr st') \<Longrightarrow>
     nat (outputEnd - outputIterator st') < nat (outputEnd - outputIterator st)"
  by (auto simp: tail_step_def Let_def split: if_splits Option.bind_splits)

function tail_loop ::
  "byte list \<Rightarrow> int \<Rightarrow> int \<Rightarrow> DecodeState \<Rightarrow> (Result \<times> byte list) option" where
  "tail_loop inputBuffer inputEnd outputEnd st =
     (case tail_step inputBuffer inputEnd outputEnd st of
        None \<Rightarrow> None
      | Some (Inl r) \<Rightarrow> Some r
      | Some (Inr st') \<Rightarrow> tail_loop inputBuffer inputEnd outputEnd st')"
  by pat_completeness auto
termination
  by (relation "measure (\<lambda>(inputBuffer, inputEnd, outputEnd, st). nat (outputEnd - outputIterator st))")
     (auto dest: tail_step_measure)

declare tail_loop.simps [simp del]

text \<open>
  Copying a match: the first three bytes one by one when the offset is below the word
  size, then whole words, at least once (the loop tests its condition after the body).
\<close>

function copy_head :: "byte list \<Rightarrow> int \<Rightarrow> int \<Rightarrow> int \<Rightarrow> byte list option" where
  "copy_head out outIt matchString i =
     (if i < 3 then
        (case FastRead out (matchString + i) 1 of
           None \<Rightarrow> None
         | Some w \<Rightarrow>
             (case FastWrite out (outIt + i) w 1 of
                None \<Rightarrow> None
              | Some ob \<Rightarrow> copy_head ob outIt matchString (i + 1)))
      else Some out)"
  by pat_completeness auto
termination
  by (relation "measure (\<lambda>(out, outIt, matchString, i). nat (3 - i))") auto

declare copy_head.simps [simp del]

function copy_words :: "byte list \<Rightarrow> int \<Rightarrow> int \<Rightarrow> int \<Rightarrow> int \<Rightarrow> byte list option" where
  "copy_words out outIt matchString i matchLength =
     (case FastRead out (matchString + i) WORD_SIZE of
        None \<Rightarrow> None
      | Some w \<Rightarrow>
          (case FastWrite out (outIt + i) w WORD_SIZE of
             None \<Rightarrow> None
           | Some ob \<Rightarrow>
               (if i + WORD_SIZE < matchLength
                then copy_words ob outIt matchString (i + WORD_SIZE) matchLength
                else Some ob)))"
  by pat_completeness auto
termination
  by (relation "measure (\<lambda>(out, outIt, matchString, i, matchLength).
        nat (matchLength - i))")
     (auto simp: WORD_SIZE_def)

declare copy_words.simps [simp del]

text \<open>One round of the decoding loop.\<close>

definition decode_step ::
  "Decompressor \<Rightarrow> byte list \<Rightarrow> int \<Rightarrow> int \<Rightarrow> int \<Rightarrow> DecodeState
     \<Rightarrow> (Result \<times> byte list, DecodeState) step" where
  "decode_step d inputBuffer inputEnd outputEnd outputTail st =
     (if inputIterator st + 2 * WORD_SIZE > inputEnd
      then Some (Inl (RESULT_ERROR_CORRUPTED_DATA, outputBuffer st))
      else do {
        st \<leftarrow> (if controlWord st = 1 then do {
                  w \<leftarrow> FastRead inputBuffer (inputIterator st) WORD_SIZE;
                  Some (st\<lparr>controlWord := w, inputIterator := inputIterator st + WORD_SIZE\<rparr>)
                } else Some st);
        if controlWord st AND 1 = 0 then
          (if outputIterator st < outputTail then do {
             w \<leftarrow> FastRead inputBuffer (inputIterator st) WORD_SIZE;
             ob \<leftarrow> FastWrite (outputBuffer st) (outputIterator st) w WORD_SIZE;
             r \<leftarrow> at (literalRunLengthTable d) (uint (controlWord st AND 0xf));
             let runLength = sint r;
             cw \<leftarrow> shift_right (controlWord st) runLength;
             Some (Inr \<lparr>inputIterator = inputIterator st + runLength,
                        outputIterator = outputIterator st + runLength,
                        controlWord = cw,
                        outputBuffer = ob\<rparr>)
           } else map_option Inl (tail_loop inputBuffer inputEnd outputEnd st))
        else do {
          (match, matchSize) \<leftarrow> decodeMatch d inputBuffer (inputIterator st);
          let st = st\<lparr>inputIterator := inputIterator st + matchSize\<rparr>;
          let matchString = outputIterator st - Offset match;
          if matchString < 0 \<or> outputIterator st + Length match > outputTail
          then Some (Inl (RESULT_ERROR_CORRUPTED_DATA, outputBuffer st))
          else do {
            (ob, i, matchString) \<leftarrow>
              (if Offset match < WORD_SIZE then do {
                 ob \<leftarrow> copy_head (outputBuffer st) (outputIterator st) matchString 0;
                 Some (ob, 3, matchString - (2 + (Offset match AND 1)))
               } else Some (outputBuffer st, 0, matchString));
            ob \<leftarrow> copy_words ob (outputIterator st) matchString i (Length match);
            Some (Inr (st\<lparr>outputIterator := outputIterator st + Length match,
                          controlWord := drop_bit 1 (controlWord st),
                          outputBuffer := ob\<rparr>))
          }
        }
      })"

text \<open>
  The decoding loop. With the tables of \<open>Decompressor_initialize\<close> every round consumes input, but the
  tables are fields of the receiver, so the loop is defined for any of their values:
  \<open>None\<close> is a call that never returns, \<open>Some None\<close> a call that panics.
\<close>

partial_function (option) decode_loop ::
  "Decompressor \<Rightarrow> byte list \<Rightarrow> int \<Rightarrow> int \<Rightarrow> int \<Rightarrow> DecodeState
     \<Rightarrow> (Result \<times> byte list) option option" where
  "decode_loop d inputBuffer inputEnd outputEnd outputTail st =
     (case decode_step d inputBuffer inputEnd outputEnd outputTail st of
        None \<Rightarrow> Some None
      | Some (Inl r) \<Rightarrow> Some (Some r)
      | Some (Inr st') \<Rightarrow> decode_loop d inputBuffer inputEnd outputEnd outputTail st')"

declare decode_loop.simps [code]

definition Decompress ::
  "Decompressor \<Rightarrow> byte list \<Rightarrow> byte list \<Rightarrow> (Result \<times> byte list) option option" where
  "Decompress d source destination =
     (case decodeHeader source of
        None \<Rightarrow> Some None
      | Some (decodeHeaderResult, header, headerSize) \<Rightarrow>
          if decodeHeaderResult \<noteq> RESULT_OK then Some (Some (decodeHeaderResult, destination))
          else
            let inputIt = 0 + headerSize in
            if Version header \<noteq> VERSION
            then Some (Some (RESULT_ERROR_UNSUPPORTED_VERSION, destination))
            else if (of_nat (length source) :: 64 word) < CompressedSize header
                    \<or> (of_nat (length destination) :: 64 word) < UncompressedSize header
            then Some (Some (RESULT_ERROR_BUFFER_TOO_SMALL, destination))
            else
              let uncompressedSize = sint (UncompressedSize header) in
              if IsStored header then
                Some (map_option (Pair RESULT_OK)
                  (copy_slice destination 0 uncompressedSize source inputIt))
              else
                let inputEnd = sint (CompressedSize header);
                    outputEnd = uncompressedSize;
                    outputTail = (if uncompressedSize > TAIL_LENGTH
                                  then outputEnd - TAIL_LENGTH else 0)
                in decode_loop d source inputEnd outputEnd outputTail
                     \<lparr>inputIterator = inputIt, outputIterator = 0,
                      controlWord = 1, outputBuffer = destination\<rparr>)"

subsection \<open>The dictionary\<close>

definition HASH_TABLE_SIZE :: int where "HASH_TABLE_SIZE = 2 ^ 20"
definition CHILD_COUNT :: int where "CHILD_COUNT = DICTIONARY_SIZE * 2"
definition INVALID_POSITION :: int where "INVALID_POSITION = - 1"
definition REBASE_THRESHOLD :: int where
  "REBASE_THRESHOLD = (MaxInt - DICTIONARY_SIZE + 1) div DICTIONARY_SIZE * DICTIONARY_SIZE"

text \<open>
  \<open>buffer\<close>, \<open>hashTable\<close> and \<open>children\<close> are slices; a nil slice is the empty list (the
  two tables are only ever nil or of their full length, as \<open>make\<close> creates them).
\<close>

record Dictionary =
  buffer :: "byte list"
  bufferBase :: int
  matchableBufferLength :: int
  absolutePosition :: int
  hashTable :: "int list"
  children :: "int list"

definition Dictionary0 :: Dictionary where
  "Dictionary0 =
     \<lparr>buffer = [], bufferBase = 0, matchableBufferLength = 0, absolutePosition = 0,
      hashTable = [], children = []\<rparr>"

text \<open>Go's remainder \<open>a % b\<close> truncates towards zero.\<close>

definition go_mod :: "int \<Rightarrow> int \<Rightarrow> int" where
  "go_mod a b = sgn a * (\<bar>a\<bar> mod \<bar>b\<bar>)"

text \<open>
  The loop \<open>for i := i0; i < n; i++ { xs[i] = f(xs[i]) }\<close>, which \<open>SetBuffer\<close> runs on the
  hash table (with a constant \<open>f\<close>) and the rebase on both tables.
\<close>

function update_first :: "(int \<Rightarrow> int) \<Rightarrow> int list \<Rightarrow> int \<Rightarrow> int \<Rightarrow> int list option" where
  "update_first f xs i n =
     (if i < n then
        (case at xs i of
           None \<Rightarrow> None
         | Some x \<Rightarrow>
             (case put xs i (f x) of
                None \<Rightarrow> None
              | Some xs' \<Rightarrow> update_first f xs' (i + 1) n))
      else Some xs)"
  by pat_completeness auto
termination
  by (relation "measure (\<lambda>(f, xs, i, n). nat (n - i))") auto

declare update_first.simps [simp del]

text \<open>The loop in closed form: it panics when the slice is shorter than \<open>n\<close>.\<close>

lemma update_first_step:
  assumes "k < length xs" "int k < n"
  shows "update_first f xs (int k) n = update_first f (xs[k := f (xs ! k)]) (int (Suc k)) n"
  using assms by (subst update_first.simps) (simp add: at_def put_def add.commute)

lemma update_first_Some:
  "k + m \<le> length xs \<Longrightarrow>
     update_first f xs (int k) (int (k + m))
       = Some (take k xs @ map f (take m (drop k xs)) @ drop (k + m) xs)"
proof (induction m arbitrary: xs k)
  case 0
  then show ?case by (subst update_first.simps) simp
next
  case (Suc m)
  let ?xs' = "xs[k := f (xs ! k)]"
  have k: "k < length xs" using Suc.prems by simp
  have s: "update_first f xs (int k) (int (k + Suc m)) = update_first f ?xs' (int (Suc k)) (int (Suc k + m))"
    using update_first_step [OF k, of "int (k + Suc m)" f] by simp
  have "Suc k + m \<le> length ?xs'" using Suc.prems by simp
  from Suc.IH [OF this]
  have "update_first f ?xs' (int (Suc k)) (int (Suc k + m))
      = Some (take (Suc k) ?xs' @ map f (take m (drop (Suc k) ?xs')) @ drop (Suc k + m) ?xs')" .
  moreover have "take (Suc k) ?xs' = take k xs @ [f (xs ! k)]"
    using k by (simp add: take_Suc_conv_app_nth)
  moreover have "drop (Suc k) ?xs' = drop (Suc k) xs" by simp
  moreover have "drop (Suc k + m) ?xs' = drop (k + Suc m) xs" by simp
  moreover have "take (Suc m) (drop k xs) = xs ! k # take m (drop (Suc k) xs)"
    using k by (simp add: Cons_nth_drop_Suc [symmetric])
  ultimately show ?case unfolding s by simp
qed

lemma update_first_None:
  "0 \<le> i \<Longrightarrow> i < n \<Longrightarrow> int (length xs) < n \<Longrightarrow> update_first f xs i n = None"
proof (induction "nat (int (length xs) - i)" arbitrary: xs i)
  case 0
  then have "\<not> i < int (length xs)" by simp
  then show ?case using 0 by (subst update_first.simps) (simp add: at_def)
next
  case (Suc j)
  define k where "k = nat i"
  have k: "k < length xs" "i = int k" using Suc.hyps(2) Suc.prems by (auto simp: k_def)
  have s: "update_first f xs i n = update_first f (xs[k := f (xs ! k)]) (int (Suc k)) n"
    using update_first_step [OF k(1), of n f] Suc.prems k by simp
  have "j = nat (int (length (xs[k := f (xs ! k)])) - int (Suc k))"
    using Suc.hyps(2) k by simp
  from Suc.hyps(1) [OF this] have "update_first f (xs[k := f (xs ! k)]) (int (Suc k)) n = None"
    using Suc.prems k 
    by (cases "int (Suc k) < n") (auto)
  then show ?case unfolding s .
qed

lemma update_first_neg: "i < 0 \<Longrightarrow> i < n \<Longrightarrow> update_first f xs i n = None"
  by (subst update_first.simps) (simp add: at_def)

lemma update_first_closed [code]:
  "update_first f xs i n =
     (if i < n then
        (if 0 \<le> i \<and> n \<le> int (length xs)
         then Some (take (nat i) xs @ map f (take (nat (n - i)) (drop (nat i) xs)) @ drop (nat n) xs)
         else None)
      else Some xs)"
proof (cases "i < n")
  case False
  then show ?thesis by (subst update_first.simps) simp
next
  case True
  show ?thesis
  proof (cases "0 \<le> i \<and> n \<le> int (length xs)")
    case False
    then show ?thesis using True update_first_neg [of i n f xs] update_first_None [of i n xs f]
      by (cases "i < 0") auto
  next
    case ok: True
    define k where "k = nat i"
    define m where "m = nat (n - i)"
    have e: "i = int k" "n = int (k + m)" "k + m \<le> length xs" "nat n = k + m"
      using True ok by (auto simp: k_def m_def)
    have "nat (int k + int m) = k + m" by (simp add: nat_add_distrib)
    then show ?thesis using update_first_Some [OF e(3), of f] True ok
      unfolding e(1,2) by simp
  qed
qed

definition Dictionary_initialize :: "Dictionary \<Rightarrow> Dictionary" where
  "Dictionary_initialize d = d
     \<lparr>hashTable := replicate (nat HASH_TABLE_SIZE) 0,
      children := replicate (nat CHILD_COUNT) 0\<rparr>"

definition SetBuffer :: "Dictionary \<Rightarrow> byte list \<Rightarrow> Dictionary option" where
  "SetBuffer d buf =
     (let d = d\<lparr>buffer := buf, absolutePosition := 0\<rparr>;
          d = (if int (length (buffer d)) > TAIL_LENGTH + MIN_MATCH_LENGTH
               then d\<lparr>matchableBufferLength :=
                        int (length (buffer d)) - (TAIL_LENGTH + MIN_MATCH_LENGTH)\<rparr>
               else d\<lparr>matchableBufferLength := 0\<rparr>);
          d = d\<lparr>bufferBase := 0\<rparr>;
          d = (if hashTable d = [] then Dictionary_initialize d else d)
      in do {
        ht \<leftarrow> update_first (\<lambda>_. INVALID_POSITION) (hashTable d) 0 HASH_TABLE_SIZE;
        Some (d\<lparr>hashTable := ht\<rparr>)
      })"

definition rebased :: "int \<Rightarrow> int \<Rightarrow> int" where
  "rebased rebaseDelta p = (if p \<ge> rebaseDelta then p - rebaseDelta else INVALID_POSITION)"

definition computeRelativePosition :: "Dictionary \<Rightarrow> (Dictionary \<times> int) option" where
  "computeRelativePosition d =
     (let position = absolutePosition d - bufferBase d in
      if position = REBASE_THRESHOLD then
        let rebaseDelta = REBASE_THRESHOLD - DICTIONARY_SIZE;
            d = d\<lparr>bufferBase := bufferBase d + rebaseDelta\<rparr>;
            position = position - rebaseDelta
        in do {
          ht \<leftarrow> update_first (rebased rebaseDelta) (hashTable d) 0 HASH_TABLE_SIZE;
          ch \<leftarrow> update_first (rebased rebaseDelta) (children d) 0 CHILD_COUNT;
          Some (d\<lparr>hashTable := ht, children := ch\<rparr>, position)
        }
      else Some (d, position))"

definition hash :: "byte list \<Rightarrow> int \<Rightarrow> uint option" where
  "hash data pos = do {
     b0 \<leftarrow> at data (pos + 0);
     let result = (2166136261 XOR ucast b0) * 16777619;
     b1 \<leftarrow> at data (pos + 1);
     let result = (result XOR ucast b1) * 16777619;
     b2 \<leftarrow> at data (pos + 2);
     let result = (result XOR ucast b2) * 16777619;
     Some result
   }"

text \<open>
  The inner loop of \<open>FindMatches\<close> that extends a match: \<open>p\<close> and \<open>q\<close> are the buffer
  indices \<open>bufferBase + position\<close> and \<open>bufferBase + matchPosition\<close>.
\<close>

function match_extend :: "byte list \<Rightarrow> int \<Rightarrow> int \<Rightarrow> int \<Rightarrow> int \<Rightarrow> int option" where
  "match_extend buf p q matchLength maxMatchLength =
     (if matchLength < maxMatchLength then
        (case at buf (p + matchLength) of
           None \<Rightarrow> None
         | Some a \<Rightarrow>
             (case at buf (q + matchLength) of
                None \<Rightarrow> None
              | Some b \<Rightarrow>
                  if a = b then match_extend buf p q (matchLength + 1) maxMatchLength
                  else Some matchLength))
      else Some matchLength)"
  by pat_completeness auto
termination
  by (relation "measure (\<lambda>(buf, p, q, matchLength, maxMatchLength).
        nat (maxMatchLength - matchLength))") auto

declare match_extend.simps [simp del]

text \<open>
  The state of the search loop of \<open>FindMatches\<close>: the dictionary (whose \<open>children\<close> the
  loop rewrites), the candidate array (\<open>None\<close> is nil) and the loop's variables.
  \<open>matchCount\<close> is a Go \<open>int\<close> that the loop only increments and compares for equality; it
  is kept as a 64-bit word, so that the loop ends from every state.
\<close>

record FindState =
  dictionary :: Dictionary
  matchCandidates :: "Match list option"
  matchPosition :: int
  leftSubtreeLeaf :: int
  rightSubtreeLeaf :: int
  lowMatchLength :: int
  highMatchLength :: int
  longestMatchLength :: int
  matchCount :: "64 word"
  matchCandidateCount :: int

text \<open>
  The blocks of the loop body. \<open>finish_tree\<close> ends the two pending leaf chains;
  \<open>add_candidate\<close> records a match that is longer than all before it;
  \<open>delete_node\<close> gives the new root the children of a node that matches over the whole
  maximum length; \<open>descend\<close> compares the next bytes, hangs the node into the right or the
  left subtree of the new root and goes on with its left or right child.
\<close>

definition finish_tree :: "FindState \<Rightarrow> FindState option" where
  "finish_tree st = do {
     ch \<leftarrow> put (children (dictionary st)) (leftSubtreeLeaf st) INVALID_POSITION;
     ch \<leftarrow> put ch (rightSubtreeLeaf st) INVALID_POSITION;
     Some (st\<lparr>dictionary := (dictionary st)\<lparr>children := ch\<rparr>\<rparr>)
   }"

definition add_candidate :: "FindState \<Rightarrow> int \<Rightarrow> int \<Rightarrow> FindState option" where
  "add_candidate st matchLength matchOffset =
     (case matchCandidates st of
        None \<Rightarrow> Some st
      | Some cs \<Rightarrow> do {
          cs \<leftarrow> put cs (matchCandidateCount st) \<lparr>Length = matchLength, Offset = matchOffset\<rparr>;
          Some (st\<lparr>matchCandidates := Some cs,
                   matchCandidateCount := matchCandidateCount st + 1\<rparr>)
        })"

definition delete_node :: "FindState \<Rightarrow> int \<Rightarrow> FindState option" where
  "delete_node st cyclicMatchPosition = do {
     l \<leftarrow> at (children (dictionary st)) (cyclicMatchPosition * 2);
     ch \<leftarrow> put (children (dictionary st)) (leftSubtreeLeaf st) l;
     r \<leftarrow> at ch (cyclicMatchPosition * 2 + 1);
     ch \<leftarrow> put ch (rightSubtreeLeaf st) r;
     Some (st\<lparr>dictionary := (dictionary st)\<lparr>children := ch\<rparr>\<rparr>)
   }"

definition descend :: "FindState \<Rightarrow> int \<Rightarrow> int \<Rightarrow> int \<Rightarrow> FindState option" where
  "descend st position cyclicMatchPosition matchLength =
     (let d = dictionary st in do {
        a \<leftarrow> at (buffer d) (bufferBase d + position + matchLength);
        b \<leftarrow> at (buffer d) (bufferBase d + matchPosition st + matchLength);
        if a < b then do {
          ch \<leftarrow> put (children d) (rightSubtreeLeaf st) (matchPosition st);
          let rightLeaf = cyclicMatchPosition * 2;
          mp \<leftarrow> at ch rightLeaf;
          Some (st\<lparr>dictionary := d\<lparr>children := ch\<rparr>,
                   rightSubtreeLeaf := rightLeaf,
                   matchPosition := mp,
                   highMatchLength := matchLength\<rparr>)
        } else do {
          ch \<leftarrow> put (children d) (leftSubtreeLeaf st) (matchPosition st);
          let leftLeaf = cyclicMatchPosition * 2 + 1;
          mp \<leftarrow> at ch leftLeaf;
          Some (st\<lparr>dictionary := d\<lparr>children := ch\<rparr>,
                   leftSubtreeLeaf := leftLeaf,
                   matchPosition := mp,
                   lowMatchLength := matchLength\<rparr>)
        }
      })"

text \<open>One round of the search loop: \<open>Inl\<close> leaves the loop, \<open>Inr\<close> goes round again.\<close>

definition find_step ::
  "int \<Rightarrow> int \<Rightarrow> int \<Rightarrow> FindState \<Rightarrow> (FindState, FindState) step" where
  "find_step position minMatchPosition maxMatchLength st =
     (if matchPosition st < minMatchPosition
         \<or> matchCount st = word_of_int MAX_MATCH_CANDIDATE_COUNT
      then map_option Inl (finish_tree st)
      else do {
        let st = st\<lparr>matchCount := matchCount st + 1\<rparr>;
        let d = dictionary st;
        let cyclicMatchPosition = go_mod (matchPosition st) DICTIONARY_SIZE;
        let matchLength = min (lowMatchLength st) (highMatchLength st);
        matchLength \<leftarrow> match_extend (buffer d) (bufferBase d + position)
                         (bufferBase d + matchPosition st) matchLength maxMatchLength;
        let matchOffset = position - matchPosition st;
        if matchLength > longestMatchLength st \<and> matchLength \<ge> MIN_MATCH_LENGTH then do {
          st \<leftarrow> add_candidate (st\<lparr>longestMatchLength := matchLength\<rparr>) matchLength matchOffset;
          if matchLength = maxMatchLength
          then map_option Inl (delete_node st cyclicMatchPosition)
          else map_option Inr (descend st position cyclicMatchPosition matchLength)
        } else map_option Inr (descend st position cyclicMatchPosition matchLength)
      })"

lemma descend_matchCount:
  "descend st position c ml = Some st' \<Longrightarrow> matchCount st' = matchCount st"
  by (auto simp: descend_def Let_def split: if_splits Option.bind_splits)

lemma add_candidate_matchCount:
  "add_candidate st ml mo = Some st' \<Longrightarrow> matchCount st' = matchCount st"
  by (auto simp: add_candidate_def split: option.splits Option.bind_splits)

lemma find_step_matchCount:
  assumes "find_step position minMatchPosition maxMatchLength st = Some (Inr st')"
  shows "matchCount st \<noteq> word_of_int MAX_MATCH_CANDIDATE_COUNT"
    and "matchCount st' = matchCount st + 1"
proof -
  show ne: "matchCount st \<noteq> word_of_int MAX_MATCH_CANDIDATE_COUNT"
    using assms by (auto simp: find_step_def split: if_splits)
  show "matchCount st' = matchCount st + 1"
    using assms ne
    by (auto simp: find_step_def Let_def split: if_splits Option.bind_splits
          dest!: descend_matchCount add_candidate_matchCount)
qed

lemma find_step_measure:
  assumes "find_step position minMatchPosition maxMatchLength st = Some (Inr st')"
  shows "unat (word_of_int MAX_MATCH_CANDIDATE_COUNT - matchCount st')
       < unat (word_of_int MAX_MATCH_CANDIDATE_COUNT - matchCount st)"
proof -
  have nz: "word_of_int MAX_MATCH_CANDIDATE_COUNT - matchCount st \<noteq> 0"
    using find_step_matchCount(1) [OF assms] by simp
  then have "0 < unat (word_of_int MAX_MATCH_CANDIDATE_COUNT - matchCount st)"
    by (simp add: unat_gt_0)
  then have "unat (word_of_int MAX_MATCH_CANDIDATE_COUNT - matchCount st - 1)
      < unat (word_of_int MAX_MATCH_CANDIDATE_COUNT - matchCount st)"
    by (simp add: unat_minus_one [OF nz])
  then show ?thesis
    by (simp add: find_step_matchCount(2) [OF assms] diff_diff_eq)
qed

function find_loop :: "int \<Rightarrow> int \<Rightarrow> int \<Rightarrow> FindState \<Rightarrow> FindState option" where
  "find_loop position minMatchPosition maxMatchLength st =
     (case find_step position minMatchPosition maxMatchLength st of
        None \<Rightarrow> None
      | Some (Inl st') \<Rightarrow> Some st'
      | Some (Inr st') \<Rightarrow> find_loop position minMatchPosition maxMatchLength st')"
  by pat_completeness auto
termination
  by (relation "measure (\<lambda>(position, minMatchPosition, maxMatchLength, st).
        unat (word_of_int MAX_MATCH_CANDIDATE_COUNT - matchCount st))")
     (auto dest: find_step_measure)

declare find_loop.simps [simp del]

text \<open>
  \<open>FindMatches\<close> returns the dictionary, the candidate array as the call leaves it and
  the number of candidates.
\<close>

definition FindMatches ::
  "Dictionary \<Rightarrow> Match list option \<Rightarrow> (Dictionary \<times> Match list option \<times> int) option" where
  "FindMatches d candidates =
     (if absolutePosition d \<ge> matchableBufferLength d
      then Some (d\<lparr>absolutePosition := absolutePosition d + 1\<rparr>, candidates, 0)
      else do {
        let maxMatchLength =
          min (int (length (buffer d)) - TAIL_LENGTH - absolutePosition d) MAX_MATCH_LENGTH;
        (d, position) \<leftarrow> computeRelativePosition d;
        let minMatchPosition =
          (if position \<ge> DICTIONARY_SIZE then position - DICTIONARY_SIZE + 1 else 0);
        h \<leftarrow> hash (buffer d) (bufferBase d + position);
        let hashValue = h mod word_of_int HASH_TABLE_SIZE;
        mp \<leftarrow> at (hashTable d) (uint hashValue);
        ht \<leftarrow> put (hashTable d) (uint hashValue) position;
        let d = d\<lparr>hashTable := ht\<rparr>;
        let cyclicInputPosition = go_mod position DICTIONARY_SIZE;
        st \<leftarrow> find_loop position minMatchPosition maxMatchLength
               \<lparr>dictionary = d,
                matchCandidates = candidates,
                matchPosition = mp,
                leftSubtreeLeaf = cyclicInputPosition * 2,
                rightSubtreeLeaf = cyclicInputPosition * 2 + 1,
                lowMatchLength = 0,
                highMatchLength = 0,
                longestMatchLength = 0,
                matchCount = 0,
                matchCandidateCount = 0\<rparr>;
        let d = dictionary st;
        Some (d\<lparr>absolutePosition := absolutePosition d + 1\<rparr>,
              matchCandidates st, matchCandidateCount st)
      })"

definition Skip :: "Dictionary \<Rightarrow> Dictionary option" where
  "Skip d = map_option fst (FindMatches d None)"

definition Position :: "Dictionary \<Rightarrow> int" where
  "Position d = absolutePosition d"

text \<open>Every call of \<open>FindMatches\<close> moves the position on by one.\<close>

lemma update_first_length:
  "update_first f xs i n = Some ys \<Longrightarrow> length ys = length xs"
proof (induction f xs i n arbitrary: ys rule: update_first.induct)
  case (1 f xs i n)
  show ?case
  proof (cases "i < n")
    case True
    with "1.prems" obtain x xs' where x: "at xs i = Some x" and p: "put xs i (f x) = Some xs'"
      and r: "update_first f xs' (i + 1) n = Some ys"
      by (subst (asm) update_first.simps) (auto split: option.splits)
    from "1.IH" [OF True x p r] p show ?thesis by (auto simp: put_def split: if_splits)
  next
    case False
    with "1.prems" show ?thesis by (subst (asm) update_first.simps) simp
  qed
qed

lemma computeRelativePosition_absolutePosition:
  "computeRelativePosition d = Some (d', p) \<Longrightarrow> absolutePosition d' = absolutePosition d"
  by (auto simp: computeRelativePosition_def Let_def split: if_splits Option.bind_splits)

lemma find_step_absolutePosition:
  "find_step position mn mx st = Some r \<Longrightarrow>
     absolutePosition (dictionary (case r of Inl st' \<Rightarrow> st' | Inr st' \<Rightarrow> st'))
       = absolutePosition (dictionary st)"
  by (auto simp: find_step_def finish_tree_def add_candidate_def delete_node_def descend_def Let_def
        split: if_splits Option.bind_splits option.splits)

lemma find_loop_absolutePosition:
  "find_loop position mn mx st = Some st' \<Longrightarrow>
     absolutePosition (dictionary st') = absolutePosition (dictionary st)"
proof (induction position mn mx st rule: find_loop.induct)
  case (1 position mn mx st)
  from "1.prems" obtain r where r: "find_step position mn mx st = Some r"
    by (subst (asm) find_loop.simps) (auto split: option.splits)
  show ?case
  proof (cases r)
    case (Inl a)
    with r "1.prems" have "a = st'" by (subst (asm) find_loop.simps) simp
    with find_step_absolutePosition [OF r] Inl show ?thesis by simp
  next
    case (Inr b)
    with r "1.prems" have "find_loop position mn mx b = Some st'"
      by (subst (asm) find_loop.simps) simp
    from "1.IH" [OF r Inr this] find_step_absolutePosition [OF r] Inr
    show ?thesis by simp
  qed
qed

lemma FindMatches_absolutePosition:
  "FindMatches d cs = Some (d', cs', n) \<Longrightarrow> absolutePosition d' = absolutePosition d + 1"
  by (auto simp: FindMatches_def Let_def split: if_splits Option.bind_splits
        dest!: find_loop_absolutePosition computeRelativePosition_absolutePosition)

lemma Skip_absolutePosition:
  "Skip d = Some d' \<Longrightarrow> absolutePosition d' = absolutePosition d + 1"
  by (auto simp: Skip_def dest: FindMatches_absolutePosition)

subsection \<open>The compressor\<close>

record Compressor =
  dict :: Dictionary

definition Compressor0 :: Compressor where
  "Compressor0 = \<lparr>dict = Dictionary0\<rparr>"

definition controlWordBitCount :: int where
  "controlWordBitCount = WORD_SIZE * 8 - 1"

definition controlWordGuardBit :: uint where
  "controlWordGuardBit = push_bit (nat controlWordBitCount) 1"

text \<open>\<open>matchCandidates[:matchCandidateCount]\<close>, the slice handed to \<open>getBestMatch\<close>.\<close>

definition slice_to :: "'a list \<Rightarrow> int \<Rightarrow> 'a list option" where
  "slice_to xs n = (if 0 \<le> n \<and> n \<le> int (length xs) then Some (take (nat n) xs) else None)"

text \<open>
  \<open>store\<close> returns the result, the destination and the compressed size.
\<close>

definition store :: "byte list \<Rightarrow> byte list \<Rightarrow> (Result \<times> byte list \<times> int) option" where
  "store source destination =
     (let outputIt = 0;
          maxCompressedSize = GetMaxCompressedSize (int (length source));
          headerSize = getHeaderSize maxCompressedSize;
          compressedSize = headerSize + int (length source);
          header = \<lparr>UncompressedSize = of_nat (length source),
                    CompressedSize = word_of_int compressedSize,
                    Version = VERSION, IsStored = True\<rparr>
      in do {
        destination \<leftarrow> encodeHeader header maxCompressedSize destination;
        let outputIt = outputIt + headerSize;
        destination \<leftarrow> copy_slice destination outputIt (int (length destination)) source 0;
        Some (RESULT_OK, destination, compressedSize)
      })"

text \<open>
  The state of the main loop of \<open>Compress\<close>. The fields that share a name with the
  decoder's state carry a prime. \<open>match\<close> and \<open>matchCandidateCount\<close> are set anew in
  every round and are local to it.
\<close>

record EncodeState =
  dict' :: Dictionary
  outputBuffer' :: "byte list"
  outputIterator' :: int
  controlWord' :: uint
  controlWordBit :: int
  controlWordPointer :: int
  nextMatch :: Match
  matchCandidates' :: "Match list"

text \<open>The loop \<open>for i := 0; i < match.Length-2; i++ { c.dict.Skip() }\<close>.\<close>

function skip_loop :: "Dictionary \<Rightarrow> int \<Rightarrow> int \<Rightarrow> Dictionary option" where
  "skip_loop d i n =
     (if i < n then (case Skip d of None \<Rightarrow> None | Some d' \<Rightarrow> skip_loop d' (i + 1) n)
      else Some d)"
  by pat_completeness auto
termination
  by (relation "measure (\<lambda>(d, i, n). nat (n - i))") auto

declare skip_loop.simps [simp del]

lemma skip_loop_absolutePosition:
  "skip_loop d i n = Some d' \<Longrightarrow> absolutePosition d \<le> absolutePosition d'"
proof (induction d i n rule: skip_loop.induct)
  case (1 d i n)
  show ?case
  proof (cases "i < n")
    case True
    then obtain d1 where s: "Skip d = Some d1" and r: "skip_loop d1 (i + 1) n = Some d'"
      using "1.prems" by (subst (asm) skip_loop.simps) (auto split: option.splits)
    from "1.IH" [OF True s r] Skip_absolutePosition [OF s] show ?thesis by simp
  next
    case False
    then show ?thesis using "1.prems" by (subst (asm) skip_loop.simps) simp
  qed
qed

text \<open>
  The blocks of one round of the main loop: flushing a full control word, asking the
  dictionary for the best match at its position, the lazy evaluation of the current match,
  and the encoding of a literal or of a match.
\<close>

definition flush_control_word :: "EncodeState \<Rightarrow> EncodeState option" where
  "flush_control_word st =
     (if controlWordBit st = controlWordBitCount then do {
        ob \<leftarrow> FastWrite (outputBuffer' st) (controlWordPointer st) (controlWord' st) WORD_SIZE;
        Some (st\<lparr>outputBuffer' := ob,
                 controlWord' := controlWordGuardBit,
                 controlWordBit := 0,
                 controlWordPointer := outputIterator' st,
                 outputIterator' := outputIterator' st + WORD_SIZE\<rparr>)
      } else Some st)"

definition find_next :: "EncodeState \<Rightarrow> EncodeState option" where
  "find_next st = do {
     (d, cands, matchCandidateCount) \<leftarrow> FindMatches (dict' st) (Some (matchCandidates' st));
     cands \<leftarrow> cands;
     best \<leftarrow> slice_to cands matchCandidateCount;
     Some (st\<lparr>dict' := d, matchCandidates' := cands, nextMatch := getBestMatch best\<rparr>)
   }"

definition lazy_match :: "Match \<Rightarrow> Match \<Rightarrow> Match" where
  "lazy_match match next =
     (if Length match > 0
         \<and> (1 + Length next) * getMatchCodedSize match
             > Length match * (1 + getMatchCodedSize next)
      then match\<lparr>Length := 0\<rparr> else match)"

definition emit_literal :: "byte list \<Rightarrow> EncodeState \<Rightarrow> EncodeState option" where
  "emit_literal inputBuffer st = do {
     b \<leftarrow> at inputBuffer (Position (dict' st) - 2);
     ob \<leftarrow> FastWrite (outputBuffer' st) (outputIterator' st) (ucast b) 1;
     Some (st\<lparr>outputBuffer' := ob, outputIterator' := outputIterator' st + 1\<rparr>)
   }"

definition emit_match :: "EncodeState \<Rightarrow> Match \<Rightarrow> EncodeState option" where
  "emit_match st match = do {
     bit \<leftarrow> (if controlWordBit st < 0 then None
             else Some (push_bit (nat (controlWordBit st)) 1 :: uint));
     let st = st\<lparr>controlWord' := controlWord' st OR bit\<rparr>;
     (ob, sz) \<leftarrow> encodeMatch match (Some (outputBuffer' st, outputIterator' st));
     ob \<leftarrow> ob;
     let st = st\<lparr>outputBuffer' := ob, outputIterator' := outputIterator' st + sz\<rparr>;
     d \<leftarrow> skip_loop (dict' st) 0 (Length match - 2);
     find_next (st\<lparr>dict' := d\<rparr>)
   }"

text \<open>
  One round of the main loop: \<open>Inl\<close> is the round that stops the compression and asks
  for \<open>store\<close>, \<open>Inr\<close> goes round again.
\<close>

definition compress_step ::
  "byte list \<Rightarrow> int \<Rightarrow> EncodeState \<Rightarrow> (EncodeState, EncodeState) step" where
  "compress_step inputBuffer maxOutputEnd st =
     (if outputIterator' st + 2 * WORD_SIZE + TRAILING_DUMMY_SIZE > maxOutputEnd
      then Some (Inl st)
      else do {
        st \<leftarrow> flush_control_word st;
        let match = nextMatch st;
        st \<leftarrow> find_next st;
        let match = lazy_match match (nextMatch st);
        st \<leftarrow> (if Length match = 0 then emit_literal inputBuffer st else emit_match st match);
        Some (Inr (st\<lparr>controlWordBit := controlWordBit st + 1\<rparr>))
      })"

lemma flush_control_word_dict: "flush_control_word st = Some st' \<Longrightarrow> dict' st' = dict' st"
  by (auto simp: flush_control_word_def split: if_splits Option.bind_splits)

lemma find_next_Position:
  "find_next st = Some st' \<Longrightarrow> Position (dict' st') = Position (dict' st) + 1"
  by (auto simp: find_next_def Position_def split: Option.bind_splits
        dest!: FindMatches_absolutePosition)

lemma emit_literal_dict: "emit_literal inputBuffer st = Some st' \<Longrightarrow> dict' st' = dict' st"
  by (auto simp: emit_literal_def split: Option.bind_splits)

lemma emit_match_Position:
  "emit_match st m = Some st' \<Longrightarrow> Position (dict' st) < Position (dict' st')"
  by (auto simp: emit_match_def Let_def Position_def split: Option.bind_splits if_splits
        dest!: find_next_Position skip_loop_absolutePosition)

lemma compress_step_Position:
  assumes "compress_step inputBuffer maxOutputEnd st = Some (Inr st')"
  shows "Position (dict' st) < Position (dict' st')"
  using assms
  by (auto simp: compress_step_def Let_def split: if_splits Option.bind_splits 
        dest!: flush_control_word_dict find_next_Position emit_literal_dict emit_match_Position)

function compress_loop ::
  "byte list \<Rightarrow> int \<Rightarrow> EncodeState \<Rightarrow> (EncodeState + EncodeState) option" where
  "compress_loop source maxOutputEnd st =
     (if Position (dict' st) - 1 < int (length source) then
        (case compress_step source maxOutputEnd st of
           None \<Rightarrow> None
         | Some (Inl st') \<Rightarrow> Some (Inl st')
         | Some (Inr st') \<Rightarrow> compress_loop source maxOutputEnd st')
      else Some (Inr st))"
  by pat_completeness auto
termination
  by (relation "measure (\<lambda>(source, maxOutputEnd, st).
        nat (int (length source) + 1 - Position (dict' st)))")
     (auto dest!: compress_step_Position)

declare compress_loop.simps [simp del]

text \<open>
  \<open>Compress\<close> takes the compressor, the two buffers and the value that the caller's
  \<open>compressedSize\<close> holds; it returns the result, the compressor, the destination and
  \<open>compressedSize\<close>.
\<close>

definition Compress ::
  "Compressor \<Rightarrow> byte list \<Rightarrow> byte list \<Rightarrow> int
     \<Rightarrow> (Result \<times> Compressor \<times> byte list \<times> int) option" where
  "Compress c source destination compressedSize =
     (if length source = 0
      then Some (RESULT_ERROR_BUFFER_TOO_SMALL, c, destination, compressedSize)
      else
        let maxCompressedSize = GetMaxCompressedSize (int (length source)) in
        if int (length destination) < maxCompressedSize
        then Some (RESULT_ERROR_BUFFER_TOO_SMALL, c, destination, compressedSize)
        else do {
          let maxOutputEnd = maxCompressedSize;
          let outputIt = getHeaderSize maxCompressedSize;
          d \<leftarrow> SetBuffer (dict c) source;
          let controlWordPtr = outputIt;
          let outputIt = outputIt + WORD_SIZE;
          d \<leftarrow> Skip d;
          r \<leftarrow> compress_loop source maxOutputEnd
                 \<lparr>dict' = d,
                  outputBuffer' = destination,
                  outputIterator' = outputIt,
                  controlWord' = controlWordGuardBit,
                  controlWordBit = 0,
                  controlWordPointer = controlWordPtr,
                  nextMatch = \<lparr>Length = 0, Offset = 0\<rparr>,
                  matchCandidates' =
                    replicate (nat MAX_MATCH_CANDIDATE_COUNT) \<lparr>Length = 0, Offset = 0\<rparr>\<rparr>;
          case r of
            Inl st \<Rightarrow> do {
              (res, ob, n) \<leftarrow> store source (outputBuffer' st);
              Some (res, c\<lparr>dict := dict' st\<rparr>, ob, n)
            }
          | Inr st \<Rightarrow> do {
              ob \<leftarrow> FastWrite (outputBuffer' st) (controlWordPointer st) (controlWord' st) WORD_SIZE;
              ob \<leftarrow> FastWrite ob (outputIterator' st) 0 TRAILING_DUMMY_SIZE;
              let outputIt = outputIterator' st + TRAILING_DUMMY_SIZE;
              let compressedSize = outputIt;
              let header = \<lparr>UncompressedSize = of_nat (length source),
                             CompressedSize = word_of_int compressedSize,
                             Version = VERSION, IsStored = False\<rparr>;
              ob \<leftarrow> encodeHeader header maxCompressedSize ob;
              Some (RESULT_OK, c\<lparr>dict := dict' st\<rparr>, ob, compressedSize)
            }
        })"

section \<open>Properties of the header and match codecs\<close>

subsection \<open>Words and bytes\<close>

lemma word_take_bit_self: "(x :: 'a::len word) < 2 ^ k \<Longrightarrow> take_bit k x = x"
  by (simp add: less_mask_eq take_bit_eq_mask)

lemma word_bit_bound: "(x :: 'a::len word) < 2 ^ k \<Longrightarrow> bit x n \<Longrightarrow> n < k"
  by (metis bit_take_bit_iff word_take_bit_self)

lemma masks: "(0xff :: uint) = mask 8" "(0xffff :: uint) = mask 16" "(0xffffff :: uint) = mask 24"
  "(0xffffffff :: uint) = mask 32" "(7::uint) = mask 3" "(15::uint) = mask 4" "(31::uint) = mask 5"
  by (simp_all add: mask_eq_exp_minus_1)

lemma low3_cases: 
  fixes x :: uint
  shows "push_bit 2 (take_bit 1 x) = 0 \<or> push_bit 2 (take_bit 1 x) = (4::uint)"
proof -
  have "take_bit 1 x = (if odd x then 1 else 0)"
    by (rule bit_word_eqI) (auto simp: bit_simps bit_0)
  then show ?thesis by auto
qed

lemma code00:
  fixes ofs W :: uint
  assumes o: "ofs < 2 ^ 6" and H: "take_bit 8 W = take_bit 8 (push_bit 2 ofs)"
  shows "W AND 7 = 0 \<or> W AND 7 = 4" "drop_bit 2 (W AND 0xff) = ofs"
proof -
  have "W AND mask 3 = take_bit 3 (take_bit 8 W)"
    by (rule bit_word_eqI) (auto simp: bit_simps)
  also have "\<dots> = push_bit 2 (take_bit 1 ofs)"
    unfolding H by (rule bit_word_eqI) (auto simp: bit_simps bit_0)
  finally show "W AND 7 = 0 \<or> W AND 7 = 4" using low3_cases[of ofs] by (simp add: masks)
  have "drop_bit 2 (W AND mask 8) = drop_bit 2 (take_bit 8 W)"
    by (simp add: take_bit_eq_mask)
  also have "\<dots> = ofs" unfolding H 
    by (rule bit_word_eqI) (auto simp: bit_simps dest: word_bit_bound[OF o])
  finally show "drop_bit 2 (W AND 0xff) = ofs" by (simp add: masks)
qed

lemma code01:
  fixes ofs W :: uint
  assumes o: "ofs < 2 ^ 14" and H: "take_bit 16 W = take_bit 16 (push_bit 2 ofs OR 1)"
  shows "W AND 7 = 1 \<or> W AND 7 = 5" "drop_bit 2 (W AND 0xffff) = ofs"
proof -
  have "W AND mask 3 = take_bit 3 (take_bit 16 W)"
    by (rule bit_word_eqI) (auto simp: bit_simps)
  also have "\<dots> = push_bit 2 (take_bit 1 ofs) OR 1"
    unfolding H by (rule bit_word_eqI) (auto simp: bit_simps bit_0)
  finally show "W AND 7 = 1 \<or> W AND 7 = 5" using low3_cases[of ofs] by (auto simp add: masks)
  have "drop_bit 2 (W AND mask 16) = drop_bit 2 (take_bit 16 W)"
    by (simp add: take_bit_eq_mask)
  also have "\<dots> = ofs" unfolding H 
    by (rule bit_word_eqI) (auto simp: bit_simps dest: word_bit_bound[OF o])
  finally show "drop_bit 2 (W AND 0xffff) = ofs" by (simp add: masks)
qed

lemma code10:
  fixes ofs len W :: uint
  assumes o: "ofs < 2 ^ 10" and l: "len < 2 ^ 4" and H: "take_bit 16 W = take_bit 16 (push_bit 6 ofs OR push_bit 2 len OR 2)"
  shows "W AND 7 = 2 \<or> W AND 7 = 6" "drop_bit 6 (W AND 0xffff) = ofs" "drop_bit 2 W AND 15 = len"
proof -
  have "W AND mask 3 = take_bit 3 (take_bit 16 W)"
    by (rule bit_word_eqI) (auto simp: bit_simps)
  also have "\<dots> = push_bit 2 (take_bit 1 len) OR 2"
    unfolding H by (rule bit_word_eqI) (auto simp: bit_simps bit_0)
  finally show "W AND 7 = 2 \<or> W AND 7 = 6" using low3_cases[of len] by (auto simp add: masks)
  have "drop_bit 6 (W AND mask 16) = drop_bit 6 (take_bit 16 W)"
    by (simp add: take_bit_eq_mask)
  also have "\<dots> = ofs" unfolding H 
    by (rule bit_word_eqI) (auto simp: bit_simps dest: word_bit_bound[OF o] word_bit_bound[OF l])
  finally show "drop_bit 6 (W AND 0xffff) = ofs" by (simp add: masks)
  have "drop_bit 2 W AND mask 4 = take_bit 4 (drop_bit 2 (take_bit 16 W))"
    by (rule bit_word_eqI) (auto simp: bit_simps)
  also have "\<dots> = len" unfolding H 
    by (rule bit_word_eqI) (auto simp: bit_simps dest: word_bit_bound[OF o] word_bit_bound[OF l])
  finally show "drop_bit 2 W AND 15 = len" by (simp add: masks)
qed

lemma code011:
  fixes ofs len W :: uint
  assumes o: "ofs < 2 ^ 16" and l: "len < 2 ^ 5" and H: "take_bit 24 W = take_bit 24 (push_bit 8 ofs OR push_bit 3 len OR 3)"
  shows "W AND 7 = 3" "drop_bit 8 (W AND 0xffffff) = ofs" "drop_bit 3 W AND 31 = len"
proof -
  have "W AND mask 3 = take_bit 3 (take_bit 24 W)"
    by (rule bit_word_eqI) (auto simp: bit_simps)
  also have "\<dots> = 3"
    unfolding H by (rule bit_word_eqI) (auto simp: bit_simps bit_0)
  finally show "W AND 7 = 3" by (auto simp add: masks)
  have "drop_bit 8 (W AND mask 24) = drop_bit 8 (take_bit 24 W)"
    by (simp add: take_bit_eq_mask)
  also have "\<dots> = ofs" unfolding H 
    by (rule bit_word_eqI) (auto simp: bit_simps dest: word_bit_bound[OF o] word_bit_bound[OF l])
  finally show "drop_bit 8 (W AND 0xffffff) = ofs" by (simp add: masks)
  have "drop_bit 3 W AND mask 5 = take_bit 5 (drop_bit 3 (take_bit 24 W))"
    by (rule bit_word_eqI) (auto simp: bit_simps)
  also have "\<dots> = len" unfolding H 
    by (rule bit_word_eqI) (auto simp: bit_simps dest: word_bit_bound[OF o] word_bit_bound[OF l])
  finally show "drop_bit 3 W AND 31 = len" by (simp add: masks)
qed

lemma code111:
  fixes ofs len W :: uint
  assumes o: "ofs < 2 ^ 21" and l: "len < 2 ^ 8" and H: "take_bit 32 W = take_bit 32 (push_bit 11 ofs OR push_bit 3 len OR 7)"
  shows "W AND 7 = 7" "drop_bit 11 (W AND 0xffffffff) = ofs" "drop_bit 3 W AND 255 = len"
proof -
  have "W AND mask 3 = take_bit 3 (take_bit 32 W)"
    by (rule bit_word_eqI) (auto simp: bit_simps)
  also have "\<dots> = 7"
    unfolding H by (rule bit_word_eqI) (auto simp: bit_simps bit_0)
  finally show "W AND 7 = 7" by (auto simp add: masks)
  have "drop_bit 11 (W AND mask 32) = drop_bit 11 (take_bit 32 W)"
    by (simp add: take_bit_eq_mask)
  also have "\<dots> = ofs" unfolding H 
    by (rule bit_word_eqI) (auto simp: bit_simps dest: word_bit_bound[OF o] word_bit_bound[OF l])
  finally show "drop_bit 11 (W AND 0xffffffff) = ofs" by (simp add: masks)
  have "drop_bit 3 W AND mask 8 = take_bit 8 (drop_bit 3 (take_bit 32 W))"
    by (rule bit_word_eqI) (auto simp: bit_simps)
  also have "\<dots> = len" unfolding H 
    by (rule bit_word_eqI) (auto simp: bit_simps dest: word_bit_bound[OF o] word_bit_bound[OF l])
  finally show "drop_bit 3 W AND 255 = len" by (simp add: masks)
qed

lemma length_le_bytes [simp]: "length (le_bytes n w) = n"
  by (induction n arbitrary: w) auto

lemma le_word_append_take_bit:
  "take_bit (8 * length bs) (le_word (bs @ cs) :: 'a::len word) = le_word bs"
proof (induction bs)
  case Nil
  then show ?case by simp
next
  case (Cons b bs)
  have "take_bit (8 * length (b # bs)) (le_word ((b # bs) @ cs) :: 'a word)
      = ucast b OR push_bit 8 (take_bit (8 * length bs) (le_word (bs @ cs)))"
    by (rule bit_word_eqI) (auto simp: bit_simps dest: bit_imp_le_length)
  then show ?case using Cons.IH by simp
qed

lemma le_word_le_bytes:
  "(le_word (le_bytes n w) :: 'b::len word) = ucast (take_bit (8 * n) w)"
proof (induction n arbitrary: w)
  case 0
  then show ?case by simp
next
  case (Suc n)
  have "(le_word (le_bytes (Suc n) w) :: 'b word) = ucast (ucast w :: byte) OR push_bit 8 (ucast (take_bit (8 * n) (drop_bit 8 w)))"
    using Suc.IH[of "drop_bit 8 w"] by simp
  also have "\<dots> = ucast (take_bit (8 * Suc n) w)"
    by (rule bit_word_eqI) (auto simp: bit_simps)
  finally show ?case .
qed

lemma read_le4_window:
  assumes "length bs = k" "k \<le> 4" "n + 4 \<le> length buf"
  shows "\<exists>X::32 word. read_le 4 (take n buf @ bs @ drop (n + k) buf) (int n) = Some X
           \<and> take_bit (8 * k) X = le_word bs"
proof -
  let ?buf' = "take n buf @ bs @ drop (n + k) buf"
  have d: "drop n ?buf' = bs @ drop (n + k) buf" using assms by simp
  have "take 4 (drop n ?buf') = bs @ take (4 - k) (drop (n + k) buf)"
    unfolding d using assms by simp
  moreover have "int n + 4 \<le> int (length ?buf')" using assms by simp
  ultimately have "read_le 4 ?buf' (int n) = Some (le_word (bs @ take (4 - k) (drop (n + k) buf)) :: 32 word)"
    by (simp add: read_le_def)
  then show ?thesis using le_word_append_take_bit[of bs "take (4 - k) (drop (n + k) buf)"] assms(1) by auto
qed

lemma FastWrite_FastRead:
  assumes off: "0 \<le> off" "off + 4 \<le> int (length buf)" and sz: "sz = 1 \<or> sz = 2 \<or> sz = 3 \<or> sz = 4"
  shows "\<exists>buf' W. FastWrite buf off w sz = Some buf' \<and> length buf' = length buf
            \<and> FastRead buf' off 4 = Some W
            \<and> take_bit (8 * nat sz) W = take_bit (8 * nat sz) w"
proof -
  define n where "n = nat off"
  have n: "n + 4 \<le> length buf" "off = int n" using off by (auto simp: n_def)
  consider (one) "sz = 1" | (two) "sz = 2" | (four) "sz = 3 \<or> sz = 4" using sz by auto
  then show ?thesis
  proof cases
    case one
    define buf' where "buf' = take n buf @ [ucast w :: byte] @ drop (n + 1) buf"
    have w: "FastWrite buf off w sz = Some buf'"
      using one n by (simp add: FastWrite_def put_def buf'_def upd_conv_take_nth_drop)
    obtain X :: "32 word" where X: "read_le 4 buf' (int n) = Some X" "take_bit (8 * 1) X = le_word [ucast w :: byte]"
      using read_le4_window[of "[ucast w :: byte]" 1 n buf] n unfolding buf'_def by auto
    have r: "FastRead buf' off 4 = Some (ucast X)" using X n by (simp add: FastRead_def)
    have "take_bit 8 (ucast X :: uint) = ucast (take_bit 8 X)"
      by (rule bit_word_eqI) (auto simp: bit_simps)
    also have "\<dots> = take_bit 8 w" using X(2)
      by simp (rule bit_word_eqI, auto simp: bit_simps)
    finally have "take_bit (8 * nat sz) (ucast X :: uint) = take_bit (8 * nat sz) w" using one by simp
    moreover have "length buf' = length buf" using n by (simp add: buf'_def)
    ultimately show ?thesis using w r by blast
  next
    case two
    define buf' where "buf' = take n buf @ le_bytes 2 (ucast w :: 16 word) @ drop (n + 2) buf"
    have w: "FastWrite buf off w sz = Some buf'"
      using two n by (simp add: FastWrite_def write_le_def buf'_def)
    obtain X :: "32 word" where X: "read_le 4 buf' (int n) = Some X"
        "take_bit (8 * 2) X = le_word (le_bytes 2 (ucast w :: 16 word))"
      using read_le4_window[of "le_bytes 2 (ucast w :: 16 word)" 2 n buf] n unfolding buf'_def by auto
    have r: "FastRead buf' off 4 = Some (ucast X)" using X n by (simp add: FastRead_def)
    have "take_bit 16 (ucast X :: uint) = ucast (take_bit 16 X)"
      by (rule bit_word_eqI) (auto simp: bit_simps)
    also have "\<dots> = take_bit 16 w" using X(2) unfolding le_word_le_bytes
      by simp (rule bit_word_eqI, auto simp: bit_simps)
    finally have "take_bit (8 * nat sz) (ucast X :: uint) = take_bit (8 * nat sz) w" using two by simp
    moreover have "length buf' = length buf" using n by (simp add: buf'_def)
    ultimately show ?thesis using w r by blast
  next
    case four
    define buf' where "buf' = take n buf @ le_bytes 4 (ucast w :: 32 word) @ drop (n + 4) buf"
    have w: "FastWrite buf off w sz = Some buf'"
      using four n by (auto simp add: FastWrite_def write_le_def buf'_def)
    obtain X :: "32 word" where X: "read_le 4 buf' (int n) = Some X"
        "take_bit (8 * 4) X = le_word (le_bytes 4 (ucast w :: 32 word))"
      using read_le4_window[of "le_bytes 4 (ucast w :: 32 word)" 4 n buf] n unfolding buf'_def by auto
    have r: "FastRead buf' off 4 = Some (ucast X)" using X n by (simp add: FastRead_def)
    have "X = ucast w" using X(2) unfolding le_word_le_bytes by (simp add: take_bit_word_eq_self)
    then have "take_bit (8 * nat sz) (ucast X :: uint) = take_bit (8 * nat sz) w" using four 
      by (auto intro!: bit_word_eqI simp: bit_simps)
    moreover have "length buf' = length buf" using n by (simp add: buf'_def)
    ultimately show ?thesis using w r by blast
  qed
qed

lemma sint_small:
  assumes "uint (x::uint) < 2 ^ 63"
  shows "sint x = uint x"
proof -
  have "- (2 ^ 63) \<le> (0::int)" by simp
  also have "0 \<le> uint x" by simp
  finally show ?thesis using assms by (simp add: sint_uint signed_take_bit_int_eq_self)
qed

lemma uint_lt_word: "uint (x::uint) < 2 ^ k \<Longrightarrow> k < 64 \<Longrightarrow> x < 2 ^ k"
  by (simp add: word_2p_lem word_size)

lemma lut_at:
  "at (lut (Decompressor_initialize d)) 0 = Some (lut_row 0xff 2 0 0 1)"
  "at (lut (Decompressor_initialize d)) 1 = Some (lut_row 0xffff 2 0 0 2)"
  "at (lut (Decompressor_initialize d)) 2 = Some (lut_row 0xffff 6 15 2 2)"
  "at (lut (Decompressor_initialize d)) 3 = Some (lut_row 0xffffff 8 31 3 3)"
  "at (lut (Decompressor_initialize d)) 4 = Some (lut_row 0xff 2 0 0 1)"
  "at (lut (Decompressor_initialize d)) 5 = Some (lut_row 0xffff 2 0 0 2)"
  "at (lut (Decompressor_initialize d)) 6 = Some (lut_row 0xffff 6 15 2 2)"
  "at (lut (Decompressor_initialize d)) 7 = Some (lut_row 0xffffffff 11 255 3 4)"
  by (simp_all add: Decompressor_initialize_def at_def)

subsection \<open>The match codec\<close>

text \<open>
  Claim C2, amended. For every match \<open>m\<close> with
  \<open>MIN_MATCH_LENGTH \<le> Length m \<le> MAX_MATCH_LENGTH\<close> and \<open>1 \<le> Offset m < DICTIONARY_SIZE\<close>
  and every buffer with four bytes at \<open>off\<close>: \<open>encodeMatch\<close> writes its code and returns
  \<open>getMatchCodedSize m\<close>, and \<open>decodeMatch\<close> of an initialised decompressor reads exactly
  \<open>m\<close> and the same size back from the buffer written.
\<close>

theorem encodeMatch_decodeMatch:
  assumes L: "MIN_MATCH_LENGTH \<le> Length m" "Length m \<le> MAX_MATCH_LENGTH"
      and O: "1 \<le> Offset m" "Offset m < DICTIONARY_SIZE"
      and B: "0 \<le> off" "off + 4 \<le> int (length buf)"
  shows "\<exists>buf'. encodeMatch m (Some (buf, off)) = Some (Some buf', getMatchCodedSize m) \<and>
           decodeMatch (Decompressor_initialize d) buf' off = Some (m, getMatchCodedSize m)"
proof -
  define len :: uint where "len = word_of_int (Length m - MIN_MATCH_LENGTH)"
  define ofs :: uint where "ofs = word_of_int (Offset m)"
  have ul: "uint len = Length m - 3" using L
    unfolding len_def uint_word_of_int by (simp add: MIN_MATCH_LENGTH_def MAX_MATCH_LENGTH_def)
  have uo: "uint ofs = Offset m" using O
    unfolding ofs_def uint_word_of_int by (simp add: DICTIONARY_SIZE_def)
  have l8: "len < 2 ^ 8" using ul L by (intro uint_lt_word) (simp_all add: MAX_MATCH_LENGTH_def MIN_MATCH_LENGTH_def)
  have o21: "ofs < 2 ^ 21" using uo O by (intro uint_lt_word) (simp_all add: DICTIONARY_SIZE_def)
  have so: "sint ofs = Offset m" using uo O by (simp add: sint_small DICTIONARY_SIZE_def)
  have "uint (len + 3) = uint len + 3" using ul L
    by (simp add: uint_word_ariths MAX_MATCH_LENGTH_def MIN_MATCH_LENGTH_def)
  then have sl: "sint (len + 3) = Length m" using ul L 
    by (simp add: sint_small MAX_MATCH_LENGTH_def MIN_MATCH_LENGTH_def)
  have m: "m = \<lparr>Length = Length m, Offset = Offset m\<rparr>" by simp
  obtain w sz where ws: "matchCode m = (w, sz)" by force
  consider (c00) "len = 0" "ofs < 2 ^ 6" "w = push_bit 2 ofs" "sz = 1"
    | (c01) "len = 0" "ofs < 2 ^ 14" "w = push_bit 2 ofs OR 1" "sz = 2"
    | (c10) "len < 2 ^ 4" "ofs < 2 ^ 10" "w = push_bit 6 ofs OR push_bit 2 len OR 2" "sz = 2"
    | (c011) "len < 2 ^ 5" "ofs < 2 ^ 16" "w = push_bit 8 ofs OR push_bit 3 len OR 3" "sz = 3"
    | (c111) "w = push_bit 11 ofs OR push_bit 3 len OR 7" "sz = 4"
    using ws unfolding matchCode_def len_def[symmetric] ofs_def[symmetric]
    by (auto simp: Let_def split: if_splits)
  note C = this
  from C have szr: "sz = 1 \<or> sz = 2 \<or> sz = 3 \<or> sz = 4" by cases auto
  from FastWrite_FastRead[OF B szr, of w] obtain buf' W where
    fw: "FastWrite buf off w sz = Some buf'" and fr: "FastRead buf' off 4 = Some W"
    and tb: "take_bit (8 * nat sz) W = take_bit (8 * nat sz) w" by blast
  have enc: "encodeMatch m (Some (buf, off)) = Some (Some buf', getMatchCodedSize m)"
    using ws fw by (simp add: encodeMatch_def getMatchCodedSize_def)
  have gs: "getMatchCodedSize m = sz" using ws by (simp add: getMatchCodedSize_def)
  from C have "decodeMatch (Decompressor_initialize d) buf' off = Some (\<lparr>Length = Length m, Offset = Offset m\<rparr>, sz)"
  proof cases
    case c00
    have H: "take_bit 8 W = take_bit 8 (push_bit 2 ofs)" using tb c00 by simp
    from code00[OF c00(2) H] have i: "W AND 7 = 0 \<or> W AND 7 = 4"
      and x: "drop_bit 2 (W AND 0xff) = ofs" by auto
    show ?thesis using fr i x so sl c00
      by (auto simp: decodeMatch_def WORD_SIZE_def lut_at lut_row_def Let_def MIN_MATCH_LENGTH_def)
  next
    case c01
    have H: "take_bit 16 W = take_bit 16 (push_bit 2 ofs OR 1)" using tb c01 by simp
    from code01[OF c01(2) H] have i: "W AND 7 = 1 \<or> W AND 7 = 5"
      and x: "drop_bit 2 (W AND 0xffff) = ofs" by auto
    show ?thesis using fr i x so sl c01
      by (auto simp: decodeMatch_def WORD_SIZE_def lut_at lut_row_def Let_def MIN_MATCH_LENGTH_def)
  next
    case c10
    have H: "take_bit 16 W = take_bit 16 (push_bit 6 ofs OR push_bit 2 len OR 2)" using tb c10 by simp
    from code10[OF c10(2) c10(1) H] have i: "W AND 7 = 2 \<or> W AND 7 = 6"
      and x: "drop_bit 6 (W AND 0xffff) = ofs" "drop_bit 2 W AND 15 = len" by auto
    show ?thesis using fr i x so sl c10
      by (auto simp: decodeMatch_def WORD_SIZE_def lut_at lut_row_def Let_def MIN_MATCH_LENGTH_def)
  next
    case c011
    have H: "take_bit 24 W = take_bit 24 (push_bit 8 ofs OR push_bit 3 len OR 3)" using tb c011 by simp
    from code011[OF c011(2) c011(1) H] have i: "W AND 7 = 3"
      and x: "drop_bit 8 (W AND 0xffffff) = ofs" "drop_bit 3 W AND 31 = len" by auto
    show ?thesis using fr i x so sl c011
      by (auto simp: decodeMatch_def WORD_SIZE_def lut_at lut_row_def Let_def MIN_MATCH_LENGTH_def)
  next
    case c111
    have H: "take_bit 32 W = take_bit 32 (push_bit 11 ofs OR push_bit 3 len OR 7)" using tb c111 by simp
    from code111[OF o21 l8 H] have i: "W AND 7 = 7"
      and x: "drop_bit 11 (W AND 0xffffffff) = ofs" "drop_bit 3 W AND 255 = len" by auto
    show ?thesis using fr i x so sl c111
      by (auto simp: decodeMatch_def WORD_SIZE_def lut_at lut_row_def Let_def MIN_MATCH_LENGTH_def)
  qed
  then show ?thesis using enc gs m by auto
qed

theorem encodeMatch_decodeMatch_witness:
  "MIN_MATCH_LENGTH \<le> Length \<lparr>Length = 10, Offset = 500\<rparr> \<and>
   Length \<lparr>Length = 10, Offset = 500\<rparr> \<le> MAX_MATCH_LENGTH \<and>
   1 \<le> Offset \<lparr>Length = 10, Offset = 500\<rparr> \<and>
   Offset \<lparr>Length = 10, Offset = 500\<rparr> < DICTIONARY_SIZE \<and>
   (\<exists>buf'. encodeMatch \<lparr>Length = 10, Offset = 500\<rparr> (Some ([0, 0, 0, 0, 0], 1))
              = Some (Some buf', getMatchCodedSize \<lparr>Length = 10, Offset = 500\<rparr>) \<and>
            decodeMatch (Decompressor_initialize Decompressor0) buf' 1
              = Some (\<lparr>Length = 10, Offset = 500\<rparr>, getMatchCodedSize \<lparr>Length = 10, Offset = 500\<rparr>))"
  using encodeMatch_decodeMatch [of "\<lparr>Length = 10, Offset = 500\<rparr>" 1 "[0, 0, 0, 0, 0]" Decompressor0]
  by (simp add: MIN_MATCH_LENGTH_def MAX_MATCH_LENGTH_def DICTIONARY_SIZE_def)

text \<open>
  Claim C2 as stated admits \<open>Offset m = DICTIONARY_SIZE\<close>. The four-byte code holds 21 bits
  of offset, \<open>FastWrite\<close> stores the low 32 bits of the word, and the offset \<open>2^21\<close> is read
  back as 0.
\<close>

theorem encodeMatch_decodeMatch_counterexample:
  "MIN_MATCH_LENGTH \<le> Length \<lparr>Length = 3, Offset = DICTIONARY_SIZE\<rparr> \<and>
   Length \<lparr>Length = 3, Offset = DICTIONARY_SIZE\<rparr> \<le> MAX_MATCH_LENGTH \<and>
   1 \<le> Offset \<lparr>Length = 3, Offset = DICTIONARY_SIZE\<rparr> \<and>
   Offset \<lparr>Length = 3, Offset = DICTIONARY_SIZE\<rparr> \<le> DICTIONARY_SIZE \<and>
   encodeMatch \<lparr>Length = 3, Offset = DICTIONARY_SIZE\<rparr> (Some ([0, 0, 0, 0], 0))
     = Some (Some [7, 0, 0, 0], 4) \<and>
   decodeMatch (Decompressor_initialize Decompressor0) [7, 0, 0, 0] 0 = Some (\<lparr>Length = 3, Offset = 0\<rparr>, 4)"
  by code_simp

subsection \<open>Best-match selection\<close>

lemma getBestMatch_loop_first:
  "(\<exists>i < length cs. getBestMatch_loop cs b = cs ! i \<and> Length (cs ! i) > getMatchCodedSize (cs ! i)
        \<and> (\<forall>j < i. \<not> Length (cs ! j) > getMatchCodedSize (cs ! j)))
   \<or> ((\<forall>m \<in> set cs. \<not> Length m > getMatchCodedSize m) \<and> getBestMatch_loop cs b = b)"
proof (induction cs)
  case Nil
  then show ?case by simp
next
  case (Cons c cs)
  show ?case
  proof (cases "Length c > getMatchCodedSize c")
    case True
    then have "getBestMatch_loop (c # cs) b = (c # cs) ! 0
        \<and> Length ((c # cs) ! 0) > getMatchCodedSize ((c # cs) ! 0)
        \<and> (\<forall>j < 0. \<not> Length ((c # cs) ! j) > getMatchCodedSize ((c # cs) ! j))"
      by simp
    then show ?thesis by blast
  next
    case False
    from Cons.IH show ?thesis
    proof
      assume "\<exists>i<length cs. getBestMatch_loop cs b = cs ! i
                \<and> getMatchCodedSize (cs ! i) < Length (cs ! i)
                \<and> (\<forall>j<i. \<not> getMatchCodedSize (cs ! j) < Length (cs ! j))"
      then obtain i where i: "i < length cs" "getBestMatch_loop cs b = cs ! i"
          "getMatchCodedSize (cs ! i) < Length (cs ! i)"
          "\<forall>j<i. \<not> getMatchCodedSize (cs ! j) < Length (cs ! j)"
        by blast
      have "\<forall>j < Suc i. \<not> getMatchCodedSize ((c # cs) ! j) < Length ((c # cs) ! j)"
        using False i(4) by (auto simp: less_Suc_eq_0_disj)
      with i False have "Suc i < length (c # cs)
          \<and> getBestMatch_loop (c # cs) b = (c # cs) ! Suc i
          \<and> getMatchCodedSize ((c # cs) ! Suc i) < Length ((c # cs) ! Suc i)
          \<and> (\<forall>j < Suc i. \<not> getMatchCodedSize ((c # cs) ! j) < Length ((c # cs) ! j))"
        by simp
      then show ?thesis by blast
    next
      assume "(\<forall>m\<in>set cs. \<not> getMatchCodedSize m < Length m) \<and> getBestMatch_loop cs b = b"
      with False show ?thesis by simp
    qed
  qed
qed

text \<open>
  Claim C7. \<open>getBestMatch\<close> returns the first candidate of the list whose length strictly
  exceeds its own coded size (no earlier candidate does); if no candidate qualifies it
  returns a match of length 0. This holds for every candidate list, so also for the lists
  sorted by ascending length that the match finder returns.
\<close>

theorem getBestMatch_first_profitable:
  "(\<exists>i < length cs. getBestMatch cs = cs ! i \<and> Length (cs ! i) > getMatchCodedSize (cs ! i)
        \<and> (\<forall>j < i. \<not> Length (cs ! j) > getMatchCodedSize (cs ! j)))
   \<or> ((\<forall>m \<in> set cs. \<not> Length m > getMatchCodedSize m) \<and> Length (getBestMatch cs) = 0)"
  using getBestMatch_loop_first [of cs "\<lparr>Length = 0, Offset = 0\<rparr>"]
  unfolding getBestMatch_def by auto

theorem getBestMatch_first_profitable_witness:
  "getBestMatch [\<lparr>Length = 3, Offset = 70000\<rparr>, \<lparr>Length = 5, Offset = 1\<rparr>, \<lparr>Length = 9, Offset = 2\<rparr>]
     = \<lparr>Length = 5, Offset = 1\<rparr> \<and>
   getMatchCodedSize \<lparr>Length = 3, Offset = 70000\<rparr> = 4 \<and>
   getMatchCodedSize \<lparr>Length = 5, Offset = 1\<rparr> = 2 \<and>
   ((\<exists>i < length [\<lparr>Length = 3, Offset = 70000\<rparr>, \<lparr>Length = 5, Offset = 1\<rparr>, \<lparr>Length = 9, Offset = 2\<rparr>].
       getBestMatch [\<lparr>Length = 3, Offset = 70000\<rparr>, \<lparr>Length = 5, Offset = 1\<rparr>, \<lparr>Length = 9, Offset = 2\<rparr>]
         = [\<lparr>Length = 3, Offset = 70000\<rparr>, \<lparr>Length = 5, Offset = 1\<rparr>, \<lparr>Length = 9, Offset = 2\<rparr>] ! i
       \<and> Length ([\<lparr>Length = 3, Offset = 70000\<rparr>, \<lparr>Length = 5, Offset = 1\<rparr>, \<lparr>Length = 9, Offset = 2\<rparr>] ! i)
           > getMatchCodedSize ([\<lparr>Length = 3, Offset = 70000\<rparr>, \<lparr>Length = 5, Offset = 1\<rparr>, \<lparr>Length = 9, Offset = 2\<rparr>] ! i)
       \<and> (\<forall>j < i. \<not> Length ([\<lparr>Length = 3, Offset = 70000\<rparr>, \<lparr>Length = 5, Offset = 1\<rparr>, \<lparr>Length = 9, Offset = 2\<rparr>] ! j)
           > getMatchCodedSize ([\<lparr>Length = 3, Offset = 70000\<rparr>, \<lparr>Length = 5, Offset = 1\<rparr>, \<lparr>Length = 9, Offset = 2\<rparr>] ! j)))
    \<or> ((\<forall>m \<in> set [\<lparr>Length = 3, Offset = 70000\<rparr>, \<lparr>Length = 5, Offset = 1\<rparr>, \<lparr>Length = 9, Offset = 2\<rparr>].
           \<not> Length m > getMatchCodedSize m)
       \<and> Length (getBestMatch [\<lparr>Length = 3, Offset = 70000\<rparr>, \<lparr>Length = 5, Offset = 1\<rparr>, \<lparr>Length = 9, Offset = 2\<rparr>]) = 0))"
proof -
  have "getBestMatch [\<lparr>Length = 3, Offset = 70000\<rparr>, \<lparr>Length = 5, Offset = 1\<rparr>, \<lparr>Length = 9, Offset = 2\<rparr>]
     = \<lparr>Length = 5, Offset = 1\<rparr>"
    by code_simp
  moreover have "getMatchCodedSize \<lparr>Length = 3, Offset = 70000\<rparr> = 4"
    by code_simp
  moreover have "getMatchCodedSize \<lparr>Length = 5, Offset = 1\<rparr> = 2"
    by code_simp
  ultimately show ?thesis
    using getBestMatch_first_profitable
      [of "[\<lparr>Length = 3, Offset = 70000\<rparr>, \<lparr>Length = 5, Offset = 1\<rparr>, \<lparr>Length = 9, Offset = 2\<rparr>]"]
    by blast
qed

subsection \<open>The header codec\<close>

lemma getSizeCodedSize_cases:
  "getSizeCodedSize n = 1 \<or> getSizeCodedSize n = 2 \<or> getSizeCodedSize n = 4"
  by (simp add: getSizeCodedSize_def)

lemma put_Some:
  "put xs i v = Some ys \<longleftrightarrow> 0 \<le> i \<and> i < int (length xs) \<and> ys = xs[nat i := v]"
  by (auto simp: put_def)

lemma write_le_Some:
  "write_le n xs off w = Some ys \<longleftrightarrow>
     0 \<le> off \<and> off + int n \<le> int (length xs) \<and>
     ys = take (nat off) xs @ le_bytes n w @ drop (nat off + n) xs"
  by (auto simp: write_le_def)

lemma encodeHeader_first_byte:
  assumes "encodeHeader header mcs destination = Some out"
  shows "out ! 0 = ucast (((word_of_int (Version header) :: uint)
            OR push_bit 3 (word_of_int (getSizeCodedSize mcs) - 1))
            OR (if IsStored header then 128 else 0))"
  using assms getSizeCodedSize_cases [of mcs]
  by (auto simp: encodeHeader_def Let_def put_Some write_le_Some nth_append
         split: if_splits Option.bind_splits)

text \<open>
  Claim C5. \<open>getSizeCodedSize n\<close> is 1 for \<open>n \<le> 255\<close>, 2 for \<open>256 \<le> n \<le> 65535\<close> and 4
  otherwise, never 8; so the header that \<open>encodeHeader\<close> writes for the compressor (version
  \<open>VERSION\<close>, size class chosen from \<open>GetMaxCompressedSize\<close> of the input length) carries,
  in bits 3 to 5 of its first byte, a size class in \<open>{1, 2, 4}\<close>.
\<close>

theorem getSizeCodedSize_never_8:
  "getSizeCodedSize n = (if n \<le> 255 then 1 else if n \<le> 65535 then 2 else 4) \<and>
   getSizeCodedSize n \<noteq> 8 \<and>
   (Version header = VERSION \<longrightarrow>
    encodeHeader header (GetMaxCompressedSize len) destination = Some out \<longrightarrow>
      headerSizeCode out = getSizeCodedSize (GetMaxCompressedSize len)
      \<and> headerSizeCode out \<in> {1, 2, 4})"
proof -
  have a: "getSizeCodedSize n = (if n \<le> 255 then 1 else if n \<le> 65535 then 2 else 4)"
    by (simp add: getSizeCodedSize_def)
  have b: "getSizeCodedSize n \<noteq> 8"
    using getSizeCodedSize_cases [of n] by auto
  have c: "headerSizeCode out = getSizeCodedSize (GetMaxCompressedSize len)
      \<and> headerSizeCode out \<in> {1, 2, 4}"
    if v: "Version header = VERSION"
      and e: "encodeHeader header (GetMaxCompressedSize len) destination = Some out"
    using encodeHeader_first_byte [OF e] getSizeCodedSize_cases [of "GetMaxCompressedSize len"] v
    by (auto simp: VERSION_def headerSizeCode_def)
  from a b c show ?thesis by blast
qed

theorem getSizeCodedSize_never_8_witness:
  "Version \<lparr>UncompressedSize = 300, CompressedSize = 200, Version = VERSION, IsStored = False\<rparr>
     = VERSION \<and>
   encodeHeader \<lparr>UncompressedSize = 300, CompressedSize = 200, Version = VERSION, IsStored = False\<rparr>
     (GetMaxCompressedSize 300) [9, 9, 9, 9, 9, 9] = Some [8, 44, 1, 200, 0, 9] \<and>
   getSizeCodedSize (GetMaxCompressedSize 300) = 2 \<and>
   headerSizeCode [8, 44, 1, 200, 0, 9] = getSizeCodedSize (GetMaxCompressedSize 300) \<and>
   headerSizeCode [8, 44, 1, 200, 0, 9] \<in> {1, 2, 4}"
proof -
  have v: "Version \<lparr>UncompressedSize = 300, CompressedSize = 200, Version = VERSION, IsStored = False\<rparr>
     = VERSION"
    by simp
  have e: "encodeHeader \<lparr>UncompressedSize = 300, CompressedSize = 200, Version = VERSION, IsStored = False\<rparr>
     (GetMaxCompressedSize 300) [9, 9, 9, 9, 9, 9] = Some [8, 44, 1, 200, 0, 9]"
    by code_simp
  have g: "getSizeCodedSize (GetMaxCompressedSize 300) = 2"
    by code_simp
  from getSizeCodedSize_never_8
    [of 300 "\<lparr>UncompressedSize = 300, CompressedSize = 200, Version = VERSION, IsStored = False\<rparr>"
        300 "[9, 9, 9, 9, 9, 9]" "[8, 44, 1, 200, 0, 9]"]
    v e g
  show ?thesis by blast
qed

lemma decodeHeader_corrupted:
  assumes "int (length source) > 1 + 2 * headerSizeCode source"
      and "headerSizeCode source \<notin> {1, 2, 4, 8}"
  shows "\<exists>header n. decodeHeader source = Some (RESULT_ERROR_CORRUPTED_DATA, header, n)"
proof -
  have k: "1 \<le> headerSizeCode source"
  proof -
    have "0 \<le> uint (drop_bit 3 (ucast (source ! 0) :: uint) AND 7)" by simp
    moreover have "uint (drop_bit 3 (ucast (source ! 0) :: uint) AND 7) \<le> 7" 
      using word_and_le1[of "drop_bit 3 (ucast (source ! 0) :: uint)" 7] by (simp add: word_le_def)
    ultimately show ?thesis unfolding headerSizeCode_def
      by (simp add: sint_small)
  qed
  have ne: "\<not> int (length source) < 1" "0 < int (length source)" using assms(1) k by auto
  then have l: "int (length (drop 1 source)) = int (length source) - 1"
    by (cases source) auto
  show ?thesis
    using assms ne unfolding decodeHeader_def headerSizeCode_def Let_def l at_def
    by simp
qed

text \<open>
  Claim C4 at its failing input. The block \<open>[0, 1, 3]\<close> has size class 1, so its header is
  all of its \<open>headerSize = 3\<close> bytes; \<open>decodeHeader\<close> compares \<open>headerSize\<close> with the length
  of the source after it has dropped the attribute byte, and reports BufferTooSmall.
\<close>

theorem decodeHeader_exact_length_too_small:
  "headerSizeCode [0, 1, 3] = 1 \<and> int (length [0, 1, 3 :: byte]) = 1 + 2 * headerSizeCode [0, 1, 3] \<and>
   decodeHeader [0, 1, 3] = Some (RESULT_ERROR_BUFFER_TOO_SMALL, Header0, 3)"
  by code_simp

text \<open>
  Claim C6, amended. For every source that holds more than \<open>headerSize = 1 + 2 * sizeCodedSize\<close>
  bytes and whose first byte encodes a size class in \<open>{3, 5, 6, 7}\<close>, both \<open>GetCompressionInfo\<close>
  and \<open>Decompress\<close> return CorruptedData (and \<open>Decompress\<close> leaves the destination as it was).
\<close>

theorem bad_size_class_corrupted:
  assumes "int (length source) > 1 + 2 * headerSizeCode source"
      and "headerSizeCode source \<in> {3, 5, 6, 7}"
  shows "GetCompressionInfo source = Some (RESULT_ERROR_CORRUPTED_DATA, CompressionInfo0) \<and>
         Decompress d source destination = Some (Some (RESULT_ERROR_CORRUPTED_DATA, destination))"
proof -
  have "headerSizeCode source \<notin> {1, 2, 4, 8}" using assms(2) by auto
  from decodeHeader_corrupted [OF assms(1) this]
  obtain header n where "decodeHeader source = Some (RESULT_ERROR_CORRUPTED_DATA, header, n)"
    by blast
  then show ?thesis by (simp add: GetCompressionInfo_def Decompress_def)
qed

theorem bad_size_class_corrupted_witness:
  "int (length [16, 0, 0, 0, 0, 0, 0, 0 :: byte]) > 1 + 2 * headerSizeCode [16, 0, 0, 0, 0, 0, 0, 0] \<and>
   headerSizeCode [16, 0, 0, 0, 0, 0, 0, 0] \<in> {3, 5, 6, 7} \<and>
   GetCompressionInfo [16, 0, 0, 0, 0, 0, 0, 0]
     = Some (RESULT_ERROR_CORRUPTED_DATA, CompressionInfo0) \<and>
   Decompress Decompressor0 [16, 0, 0, 0, 0, 0, 0, 0] [1, 2]
     = Some (Some (RESULT_ERROR_CORRUPTED_DATA, [1, 2]))"
proof -
  have h: "headerSizeCode [16, 0, 0, 0, 0, 0, 0, 0] = 3" by code_simp
  have a: "int (length [16, 0, 0, 0, 0, 0, 0, 0 :: byte]) > 1 + 2 * headerSizeCode [16, 0, 0, 0, 0, 0, 0, 0]"
    unfolding h by simp
  have b: "headerSizeCode [16, 0, 0, 0, 0, 0, 0, 0] \<in> {3, 5, 6, 7}"
    unfolding h by simp
  from bad_size_class_corrupted [OF a b, of Decompressor0 "[1, 2]"] a b
  show ?thesis by blast
qed

text \<open>
  Claim C6 as stated covers every source with such a first byte. A source too short for
  its header is answered with BufferTooSmall before the size class is looked at.
\<close>

theorem bad_size_class_counterexample:
  "headerSizeCode [16] \<in> {3, 5, 6, 7} \<and>
   GetCompressionInfo [16] = Some (RESULT_ERROR_BUFFER_TOO_SMALL, CompressionInfo0) \<and>
   Decompress Decompressor0 [16] [] = Some (Some (RESULT_ERROR_BUFFER_TOO_SMALL, []))"
  by code_simp

text \<open>
  The header as its bytes give it: the version in the three low bits of the first byte,
  and the two sizes as little-endian numbers of \<open>sizeCodedSize\<close> bytes each, the first
  at offset 1 and the second right after it.
\<close>

fun le_value :: "byte list \<Rightarrow> nat" where
  "le_value [] = 0"
| "le_value (b # bs) = unat b + 256 * le_value bs"

definition headerVersion :: "byte list \<Rightarrow> int" where
  "headerVersion source = sint ((ucast (source ! 0) :: uint) AND 7)"

definition headerField :: "byte list \<Rightarrow> int \<Rightarrow> 64 word" where
  "headerField source off =
     of_nat (le_value (take (nat (headerSizeCode source)) (drop (nat off) source)))"

lemma le_value_bound: "le_value bs < 256 ^ length bs"
proof (induction bs)
  case Nil
  show ?case by simp
next
  case (Cons b bs)
  have "unat b < 256" using unsigned_less [of b] by simp
  thus ?case using Cons by simp
qed

lemma byte_or_shift: "(ucast (b :: byte) :: 'a::len word) OR push_bit 8 w = ucast b + push_bit 8 w"
proof -
  have "\<not> bit (ucast b :: 'a word) n \<or> \<not> bit (push_bit 8 w :: 'a word) n" for n
    by (auto simp: bit_simps dest: bit_imp_le_length)
  thus ?thesis by (rule disjunctive_add [symmetric])
qed

lemma le_word_value: "(le_word bs :: 'a::len word) = of_nat (le_value bs)"
proof (induction bs)
  case Nil
  show ?case by simp
next
  case (Cons b bs)
  have "(le_word (b # bs) :: 'a word) = ucast b + push_bit 8 (le_word bs)"
    by (simp add: byte_or_shift)
  also have "\<dots> = of_nat (unat b) + 256 * of_nat (le_value bs)"
    by (simp add: Cons push_bit_eq_mult)
  finally show ?case by simp
qed

lemma ucast_of_nat_small:
  assumes "n < 2 ^ LENGTH('a::len)" "LENGTH('a) \<le> LENGTH('b::len)"
  shows "(ucast (of_nat n :: 'a word) :: 'b word) = of_nat n"
proof -
  have "unat (of_nat n :: 'a word) = n"
    using assms(1) by (simp add: unat_of_nat take_bit_nat_eq_self)
  thus ?thesis by (metis of_nat_unat)
qed

lemma take_one_drop: "i < length xs \<Longrightarrow> take (Suc 0) (drop i xs) = [xs ! i]"
  by (simp add: take_Suc_conv_app_nth)

lemma decodeHeader_longer_source:
  assumes l: "int (length source) > 1 + 2 * headerSizeCode source"
      and k: "headerSizeCode source \<in> {1, 2, 4, 8}"
  shows "decodeHeader source = Some (RESULT_OK,
           \<lparr>UncompressedSize = headerField source 1,
            CompressedSize = headerField source (1 + headerSizeCode source),
            Version = headerVersion source,
            IsStored = ((ucast (source ! 0) :: uint) AND 128 \<noteq> 0)\<rparr>,
           1 + 2 * headerSizeCode source)"
proof -
  have ne: "\<not> int (length source) < 1" using l k by auto
  have ld: "int (length (drop 1 source)) = int (length source) - 1"
    using ne by (cases source) auto
  have u16: "(ucast (le_word bs :: 16 word) :: 64 word) = of_nat (le_value bs)"
    if "length bs = 2" for bs
    using le_value_bound [of bs] that
    by (simp add: le_word_value ucast_of_nat_small)
  have u32: "(ucast (le_word bs :: 32 word) :: 64 word) = of_nat (le_value bs)"
    if "length bs = 4" for bs
    using le_value_bound [of bs] that
    by (simp add: le_word_value ucast_of_nat_small)
  have u8: "(ucast (b :: byte) :: 64 word) = of_nat (le_value [b])" for b
    by (simp add: of_nat_unat)
  consider "headerSizeCode source = 1" | "headerSizeCode source = 2"
    | "headerSizeCode source = 4" | "headerSizeCode source = 8" using k by auto
  thus ?thesis
  proof cases
    case 1
    show ?thesis
      using l 1 ne
      unfolding decodeHeader_def headerSizeCode_def Let_def ld at_def
        headerField_def headerVersion_def
      by (simp add: take_one_drop Header0_def of_nat_unat numeral_2_eq_2)
  next
    case 2
    show ?thesis
      using l 2 ne
      unfolding decodeHeader_def headerSizeCode_def Let_def ld at_def
        headerField_def headerVersion_def
      by (simp add: read_le_def u16 Header0_def)
  next
    case 3
    show ?thesis
      using l 3 ne
      unfolding decodeHeader_def headerSizeCode_def Let_def ld at_def
        headerField_def headerVersion_def
      by (simp add: read_le_def u32 Header0_def)
  next
    case 4
    show ?thesis
      using l 4 ne
      unfolding decodeHeader_def headerSizeCode_def Let_def ld at_def
        headerField_def headerVersion_def
      by (simp add: read_le_def le_word_value Header0_def)
  qed
qed

lemma GetCompressionInfo_longer_source:
  assumes "int (length source) > 1 + 2 * headerSizeCode source"
      and "headerSizeCode source \<in> {1, 2, 4, 8}"
  shows "GetCompressionInfo source = Some (RESULT_OK,
           \<lparr>UncompressedSize' = headerField source 1,
            CompressedSize' = headerField source (1 + headerSizeCode source),
            Version' = headerVersion source\<rparr>)"
    and "headerVersion source \<noteq> VERSION \<Longrightarrow>
           Decompress d source destination
             = Some (Some (RESULT_ERROR_UNSUPPORTED_VERSION, destination))"
  using decodeHeader_longer_source [OF assms]
  by (simp_all add: GetCompressionInfo_def Decompress_def)


section \<open>The dictionary keeps its entries in range\<close>

text \<open>
  The slots \<open>2c\<close> and \<open>2c + 1\<close> of \<open>children\<close> belong to the node at the latest position
  that is congruent to \<open>c\<close> modulo \<open>DICTIONARY_SIZE\<close>. \<open>owner pos j\<close> is that position for
  slot \<open>j\<close> when \<open>pos\<close> is the latest position inserted; it is negative when no position
  has used the slot yet. A slot is in order when it holds \<open>INVALID_POSITION\<close> or a position
  below its owner.
\<close>

definition owner :: "int \<Rightarrow> int \<Rightarrow> int" where
  "owner pos j = pos - (pos - j div 2) mod DICTIONARY_SIZE"

definition slot_ok :: "int \<Rightarrow> int list \<Rightarrow> int \<Rightarrow> bool" where
  "slot_ok pos ch j \<longleftrightarrow>
     (0 \<le> owner pos j \<longrightarrow>
        ch ! nat j = INVALID_POSITION \<or> (0 \<le> ch ! nat j \<and> ch ! nat j < owner pos j))"

lemma D_pos: "0 < DICTIONARY_SIZE" by (simp add: DICTIONARY_SIZE_def)

lemma owner_le: "owner pos j \<le> pos"
  unfolding owner_def using D_pos by (simp add: pos_mod_sign)

lemma owner_gt: "pos - DICTIONARY_SIZE < owner pos j"
  unfolding owner_def using pos_mod_bound [OF D_pos, of "pos - j div 2"] by linarith

lemma owner_cong: "(owner pos j - j div 2) mod DICTIONARY_SIZE = 0"
proof -
  have "owner pos j - j div 2 = (pos - j div 2) - (pos - j div 2) mod DICTIONARY_SIZE"
    by (simp add: owner_def)
  then show ?thesis by (simp add: minus_mod_eq_mult_div)
qed

lemma owner_unique:
  assumes "pos - DICTIONARY_SIZE < q" "q \<le> pos" "(q - j div 2) mod DICTIONARY_SIZE = 0"
  shows "owner pos j = q"
proof -
  have "(pos - j div 2) mod DICTIONARY_SIZE = (pos - q) mod DICTIONARY_SIZE"
  proof -
    have "pos - j div 2 = (pos - q) + (q - j div 2)" by simp
    then have "(pos - j div 2) mod DICTIONARY_SIZE = ((pos - q) + (q - j div 2)) mod DICTIONARY_SIZE"
      by simp
    also have "\<dots> = (pos - q) mod DICTIONARY_SIZE"
      using assms(3) by (metis add.right_neutral mod_add_right_eq)
    finally show ?thesis .
  qed
  also have "\<dots> = pos - q" using assms by (simp add: mod_pos_pos_trivial)
  finally show ?thesis by (simp add: owner_def)
qed

lemma owner_of_node:
  assumes "pos - DICTIONARY_SIZE < q" "q \<le> pos" "0 \<le> q" "s = 0 \<or> s = 1"
  shows "owner pos (q mod DICTIONARY_SIZE * 2 + s) = q"
proof -
  have "(q mod DICTIONARY_SIZE * 2 + s) div 2 = q mod DICTIONARY_SIZE"
    using assms(4) by auto
  then have "(q - (q mod DICTIONARY_SIZE * 2 + s) div 2) mod DICTIONARY_SIZE = 0"
    by (simp add: minus_mod_eq_mult_div)
  from owner_unique [OF assms(1,2) this] show ?thesis .
qed

lemma owner_prev:
  assumes "owner pos j \<noteq> pos"
  shows "owner (pos - 1) j = owner pos j"
proof -
  have "owner pos j \<le> pos - 1" using owner_le [of pos j] assms by simp
  moreover have "pos - 1 - DICTIONARY_SIZE < owner pos j" using owner_gt [of pos j] by simp
  ultimately show ?thesis using owner_unique [of "pos - 1" "owner pos j" j] owner_cong [of pos j]
    by simp
qed

lemma owner_shift:
  assumes "delta mod DICTIONARY_SIZE = 0"
  shows "owner (pos - delta) j = owner pos j - delta"
proof -
  have "(owner pos j - delta - j div 2) mod DICTIONARY_SIZE = 0"
  proof -
    have "owner pos j - delta - j div 2 = (owner pos j - j div 2) - delta" by simp
    then show ?thesis using owner_cong [of pos j] assms
      by (metis diff_zero mod_diff_eq mod_0)
  qed
  then show ?thesis
    using owner_unique [of "pos - delta" "owner pos j - delta" j] owner_le [of pos j] owner_gt [of pos j]
    by simp
qed

subsection \<open>What the blocks of the search loop do\<close>

lemma at_Some: "at xs i = Some v \<longleftrightarrow> 0 \<le> i \<and> i < int (length xs) \<and> v = xs ! nat i"
  by (auto simp: at_def)

lemma put_None: "put xs i v = None \<longleftrightarrow> \<not> (0 \<le> i \<and> i < int (length xs))"
  by (auto simp: put_def)

lemma finish_tree_eq:
  assumes "0 \<le> leftSubtreeLeaf st" "leftSubtreeLeaf st < int (length (children (dictionary st)))"
    "0 \<le> rightSubtreeLeaf st" "rightSubtreeLeaf st < int (length (children (dictionary st)))"
  shows "finish_tree st = Some (st\<lparr>dictionary := (dictionary st)\<lparr>children :=
             (children (dictionary st))[nat (leftSubtreeLeaf st) := INVALID_POSITION,
                                        nat (rightSubtreeLeaf st) := INVALID_POSITION]\<rparr>\<rparr>)"
  using assms by (simp add: finish_tree_def put_def)

lemma add_candidate_nil:
  "matchCandidates st = None \<Longrightarrow> add_candidate st ml mo = Some st"
  by (simp add: add_candidate_def)

lemma add_candidate_eq:
  assumes "matchCandidates st = Some cs" "0 \<le> matchCandidateCount st"
    "matchCandidateCount st < int (length cs)"
  shows "add_candidate st ml mo = Some (st\<lparr>matchCandidates :=
             Some (cs[nat (matchCandidateCount st) := \<lparr>Length = ml, Offset = mo\<rparr>]),
           matchCandidateCount := matchCandidateCount st + 1\<rparr>)"
  using assms by (simp add: add_candidate_def put_def)

lemma add_candidate_full:
  assumes "matchCandidates st = Some cs" "int (length cs) \<le> matchCandidateCount st"
  shows "add_candidate st ml mo = None"
  using assms by (simp add: add_candidate_def put_def)

lemma delete_node_eq:
  assumes "0 \<le> c" "c * 2 + 1 < int (length (children (dictionary st)))"
    "0 \<le> leftSubtreeLeaf st" "leftSubtreeLeaf st < int (length (children (dictionary st)))"
    "0 \<le> rightSubtreeLeaf st" "rightSubtreeLeaf st < int (length (children (dictionary st)))"
  shows "delete_node st c = Some (st\<lparr>dictionary := (dictionary st)\<lparr>children :=
            ((children (dictionary st))[nat (leftSubtreeLeaf st) := children (dictionary st) ! nat (c * 2)])
              [nat (rightSubtreeLeaf st) :=
                 ((children (dictionary st))[nat (leftSubtreeLeaf st) := children (dictionary st) ! nat (c * 2)])
                   ! nat (c * 2 + 1)]\<rparr>\<rparr>)"
  using assms by (simp add: delete_node_def put_def at_def)

lemma descend_right_eq:
  assumes "at (buffer (dictionary st)) (bufferBase (dictionary st) + position + ml) = Some a"
    "at (buffer (dictionary st)) (bufferBase (dictionary st) + matchPosition st + ml) = Some b"
    "a < b"
    "0 \<le> rightSubtreeLeaf st" "rightSubtreeLeaf st < int (length (children (dictionary st)))"
    "0 \<le> c" "c * 2 < int (length (children (dictionary st)))"
  shows "descend st position c ml = Some (st\<lparr>dictionary := (dictionary st)\<lparr>children :=
              (children (dictionary st))[nat (rightSubtreeLeaf st) := matchPosition st]\<rparr>,
            rightSubtreeLeaf := c * 2,
            matchPosition := (children (dictionary st))[nat (rightSubtreeLeaf st) := matchPosition st] ! nat (c * 2),
            highMatchLength := ml\<rparr>)"
  using assms by (simp add: descend_def put_def at_def Let_def)

lemma descend_left_eq:
  assumes "at (buffer (dictionary st)) (bufferBase (dictionary st) + position + ml) = Some a"
    "at (buffer (dictionary st)) (bufferBase (dictionary st) + matchPosition st + ml) = Some b"
    "\<not> a < b"
    "0 \<le> leftSubtreeLeaf st" "leftSubtreeLeaf st < int (length (children (dictionary st)))"
    "0 \<le> c" "c * 2 + 1 < int (length (children (dictionary st)))"
  shows "descend st position c ml = Some (st\<lparr>dictionary := (dictionary st)\<lparr>children :=
              (children (dictionary st))[nat (leftSubtreeLeaf st) := matchPosition st]\<rparr>,
            leftSubtreeLeaf := c * 2 + 1,
            matchPosition := (children (dictionary st))[nat (leftSubtreeLeaf st) := matchPosition st] ! nat (c * 2 + 1),
            lowMatchLength := ml\<rparr>)"
  using assms by (simp add: descend_def put_def at_def Let_def)

lemma match_extend_Some:
  assumes "0 \<le> p" "0 \<le> q" "0 \<le> ml" "p + mx \<le> int (length buf)" "q + mx \<le> int (length buf)"
  shows "\<exists>r. match_extend buf p q ml mx = Some r \<and> ml \<le> r \<and> (ml \<le> mx \<longrightarrow> r \<le> mx)"
  using assms
proof (induction buf p q ml mx rule: match_extend.induct)
  case (1 buf p q ml mx)
  show ?case
  proof (cases "ml < mx")
    case False
    then show ?thesis by (subst match_extend.simps) simp
  next
    case True
    have a: "at buf (p + ml) = Some (buf ! nat (p + ml))" "at buf (q + ml) = Some (buf ! nat (q + ml))"
      using True "1.prems" by (auto simp: at_def)
    show ?thesis
    proof (cases "buf ! nat (p + ml) = buf ! nat (q + ml)")
      case False
      then show ?thesis using True a by (subst match_extend.simps) simp
    next
      case eq: True
      have "\<exists>r. match_extend buf p q (ml + 1) mx = Some r \<and> ml + 1 \<le> r \<and> (ml + 1 \<le> mx \<longrightarrow> r \<le> mx)"
        using "1.IH" [OF True a(1) a(2) eq] "1.prems" by simp
      then show ?thesis using True a eq by (subst match_extend.simps) auto
    qed
  qed
qed

subsection \<open>The invariant of the search loop\<close>

definition ch_ok :: "int \<Rightarrow> int list \<Rightarrow> bool" where
  "ch_ok pos ch \<longleftrightarrow> (\<forall>j. 0 \<le> j \<and> j < int (length ch) \<longrightarrow> slot_ok pos ch j)"

definition others_ok :: "int \<Rightarrow> int list \<Rightarrow> int \<Rightarrow> int \<Rightarrow> bool" where
  "others_ok pos ch ll rl \<longleftrightarrow>
     (\<forall>j. 0 \<le> j \<and> j < int (length ch) \<and> j \<noteq> ll \<and> j \<noteq> rl \<longrightarrow> slot_ok pos ch j)"

definition leaf_ok :: "int \<Rightarrow> int list \<Rightarrow> int \<Rightarrow> int \<Rightarrow> bool" where
  "leaf_ok pos ch mp j \<longleftrightarrow> 0 \<le> j \<and> j < int (length ch) \<and> 0 \<le> owner pos j \<and> mp < owner pos j"

definition child_val :: "int \<Rightarrow> int \<Rightarrow> bool" where
  "child_val v q \<longleftrightarrow> v = INVALID_POSITION \<or> (0 \<le> v \<and> v < q)"

lemma slot_ok_upd_same:
  assumes "0 \<le> j" "j < int (length ch)" "0 \<le> owner pos j \<longrightarrow> child_val v (owner pos j)"
  shows "slot_ok pos (ch[nat j := v]) j"
  using assms by (simp add: slot_ok_def child_val_def)

lemma slot_ok_upd_other:
  assumes "0 \<le> j" "0 \<le> k" "j \<noteq> k" "slot_ok pos ch j"
  shows "slot_ok pos (ch[nat k := v]) j"
proof -
  have "nat k \<noteq> nat j" using assms by auto
  then show ?thesis using assms(4) by (simp add: slot_ok_def)
qed

lemma ch_ok_two_updates:
  assumes o: "others_ok pos ch ll rl"
    and l: "0 \<le> ll" "ll < int (length ch)" "0 \<le> owner pos ll \<longrightarrow> child_val v (owner pos ll)"
    and r: "0 \<le> rl" "rl < int (length ch)" "0 \<le> owner pos rl \<longrightarrow> child_val w (owner pos rl)"
  shows "ch_ok pos (ch[nat ll := v, nat rl := w])"
  unfolding ch_ok_def
proof (intro allI impI)
  fix j assume j: "0 \<le> j \<and> j < int (length (ch[nat ll := v, nat rl := w]))"
  show "slot_ok pos (ch[nat ll := v, nat rl := w]) j"
  proof (cases "j = rl")
    case True
    then show ?thesis using slot_ok_upd_same [of rl "ch[nat ll := v]" pos w] r by simp
  next
    case nr: False
    show ?thesis
    proof (cases "j = ll")
      case True
      have "slot_ok pos (ch[nat ll := v]) ll" using slot_ok_upd_same [of ll ch pos v] l by simp
      then show ?thesis using True nr r(1) l(1) slot_ok_upd_other [of ll rl pos "ch[nat ll := v]" w]
        by simp
    next
      case False
      then have "slot_ok pos ch j" using o j nr by (simp add: others_ok_def)
      then have "slot_ok pos (ch[nat ll := v]) j"
        using slot_ok_upd_other [of j ll pos ch v] j l(1) False by simp
      then show ?thesis using slot_ok_upd_other [of j rl pos "ch[nat ll := v]" w] j r(1) nr by simp
    qed
  qed
qed

lemma others_ok_move:
  assumes o: "others_ok pos ch ll rl"
    and r: "0 \<le> rl" "rl < int (length ch)" "0 \<le> owner pos rl \<longrightarrow> child_val v (owner pos rl)"
    and n: "0 \<le> new"
  shows "others_ok pos (ch[nat rl := v]) ll new"
  unfolding others_ok_def
proof (intro allI impI)
  fix j assume j: "0 \<le> j \<and> j < int (length (ch[nat rl := v])) \<and> j \<noteq> ll \<and> j \<noteq> new"
  show "slot_ok pos (ch[nat rl := v]) j"
  proof (cases "j = rl")
    case True
    then show ?thesis using slot_ok_upd_same [of rl ch pos v] r by simp
  next
    case False
    then have "slot_ok pos ch j" using o j by (simp add: others_ok_def)
    then show ?thesis using slot_ok_upd_other [of j rl pos ch v] j r(1) False by simp
  qed
qed

lemma others_ok_sym: "others_ok pos ch ll rl = others_ok pos ch rl ll"
  by (auto simp: others_ok_def)

definition search_mn :: "int \<Rightarrow> int" where
  "search_mn pos = (if pos \<ge> DICTIONARY_SIZE then pos - DICTIONARY_SIZE + 1 else 0)"

definition tree_inv :: "int \<Rightarrow> int \<Rightarrow> Dictionary \<Rightarrow> int \<Rightarrow> int \<Rightarrow> int \<Rightarrow> bool" where
  "tree_inv pos mx d mp ll rl \<longleftrightarrow>
     int (length (children d)) = CHILD_COUNT \<and>
     0 \<le> bufferBase d \<and> 0 \<le> pos \<and> 3 \<le> mx \<and>
     bufferBase d + pos + mx \<le> int (length (buffer d)) \<and>
     others_ok pos (children d) ll rl \<and>
     leaf_ok pos (children d) mp ll \<and> leaf_ok pos (children d) mp rl"

lemma CC_val: "CHILD_COUNT = 2 * DICTIONARY_SIZE" "0 < CHILD_COUNT"
  by (simp_all add: CHILD_COUNT_def DICTIONARY_SIZE_def)

lemma go_mod_nonneg: "0 \<le> a \<Longrightarrow> 0 < b \<Longrightarrow> go_mod a b = a mod b"
  by (cases "a = 0") (simp_all add: go_mod_def)

lemma valid_node:
  assumes t: "tree_inv pos mx d mp ll rl" and m: "search_mn pos \<le> mp"
  defines "c \<equiv> mp mod DICTIONARY_SIZE"
  shows "0 \<le> mp" "mp < pos" "pos - DICTIONARY_SIZE < mp"
    "go_mod mp DICTIONARY_SIZE = c" "0 \<le> c" "c * 2 + 1 < int (length (children d))"
    "owner pos (c * 2) = mp" "owner pos (c * 2 + 1) = mp"
    "c * 2 \<noteq> ll" "c * 2 \<noteq> rl" "c * 2 + 1 \<noteq> ll" "c * 2 + 1 \<noteq> rl"
    "child_val (children d ! nat (c * 2)) mp" "child_val (children d ! nat (c * 2 + 1)) mp"
proof -
  show p0: "0 \<le> mp" using m by (auto simp: search_mn_def split: if_splits simp: DICTIONARY_SIZE_def)
  have "mp < owner pos ll" using t by (simp add: tree_inv_def leaf_ok_def)
  then show p1: "mp < pos" using owner_le [of pos ll] by simp
  show p2: "pos - DICTIONARY_SIZE < mp"
    using m p0 D_pos by (auto simp: search_mn_def split: if_splits)
  show "go_mod mp DICTIONARY_SIZE = c" using p0 D_pos by (simp add: go_mod_nonneg c_def)
  show c0: "0 \<le> c" using D_pos by (simp add: c_def)
  have cD: "c < DICTIONARY_SIZE" using D_pos by (simp add: c_def)
  have len: "int (length (children d)) = CHILD_COUNT"
    using t by (simp add: tree_inv_def)
  show c1: "c * 2 + 1 < int (length (children d))" using cD len CC_val by simp
  show o0: "owner pos (c * 2) = mp"
    using owner_of_node [of pos mp 0] p0 p1 p2 by (simp add: c_def)
  show o1: "owner pos (c * 2 + 1) = mp"
    using owner_of_node [of pos mp 1] p0 p1 p2 by (simp add: c_def)
  have ll: "mp < owner pos ll" and rl: "mp < owner pos rl"
    using t by (simp_all add: tree_inv_def leaf_ok_def)
  show n0: "c * 2 \<noteq> ll" using o0 ll by auto
  show n1: "c * 2 \<noteq> rl" using o0 rl by auto
  show n2: "c * 2 + 1 \<noteq> ll" using o1 ll by auto
  show n3: "c * 2 + 1 \<noteq> rl" using o1 rl by auto
  have oth: "others_ok pos (children d) ll rl" using t by (simp add: tree_inv_def)
  have "slot_ok pos (children d) (c * 2)"
    using oth n0 n1 c0 c1 by (simp add: others_ok_def)
  then show "child_val (children d ! nat (c * 2)) mp"
    using o0 p0 by (simp add: slot_ok_def child_val_def)
  have "slot_ok pos (children d) (c * 2 + 1)"
    using oth n2 n3 c0 c1 by (simp add: others_ok_def)
  then show "child_val (children d ! nat (c * 2 + 1)) mp"
    using o1 p0 by (simp add: slot_ok_def child_val_def)
qed

lemma child_val_mono: "child_val v q \<Longrightarrow> q \<le> q' \<Longrightarrow> child_val v q'"
  by (auto simp: child_val_def)

lemma child_val_invalid: "child_val INVALID_POSITION q"
  by (simp add: child_val_def)

lemma child_val_less: "child_val v q \<Longrightarrow> 0 \<le> q \<Longrightarrow> v < q"
  by (auto simp: child_val_def INVALID_POSITION_def)

lemma tree_inv_finish:
  assumes t: "tree_inv pos mx d mp ll rl"
  shows "ch_ok pos ((children d)[nat ll := INVALID_POSITION, nat rl := INVALID_POSITION])"
  using t ch_ok_two_updates [of pos "children d" ll rl INVALID_POSITION INVALID_POSITION]
  by (simp add: tree_inv_def leaf_ok_def child_val_invalid)

lemma tree_inv_delete:
  assumes t: "tree_inv pos mx d mp ll rl" and m: "search_mn pos \<le> mp"
  defines "c \<equiv> mp mod DICTIONARY_SIZE"
  defines "ch1 \<equiv> (children d)[nat ll := children d ! nat (c * 2)]"
  shows "ch_ok pos (ch1[nat rl := ch1 ! nat (c * 2 + 1)])"
proof -
  note v = valid_node [OF t m, folded c_def]
  have lf: "leaf_ok pos (children d) mp ll" "leaf_ok pos (children d) mp rl"
    using t by (simp_all add: tree_inv_def)
  have "nat ll \<noteq> nat (c * 2 + 1)" using v(5,11) lf(1) by (auto simp: leaf_ok_def)
  then have e: "ch1 ! nat (c * 2 + 1) = children d ! nat (c * 2 + 1)"
    by (simp add: ch1_def)
  have a: "child_val (children d ! nat (c * 2)) (owner pos ll)"
    using v(13) lf(1) by (auto intro: child_val_mono simp: leaf_ok_def)
  have b: "child_val (children d ! nat (c * 2 + 1)) (owner pos rl)"
    using v(14) lf(2) by (auto intro: child_val_mono simp: leaf_ok_def)
  have "ch_ok pos ((children d)[nat ll := children d ! nat (c * 2),
      nat rl := children d ! nat (c * 2 + 1)])"
    using t a b ch_ok_two_updates [of pos "children d" ll rl "children d ! nat (c * 2)"
        "children d ! nat (c * 2 + 1)"]
    by (simp add: tree_inv_def leaf_ok_def)
  then show ?thesis using e by (simp add: ch1_def)
qed

lemma tree_inv_right:
  assumes t: "tree_inv pos mx d mp ll rl" and m: "search_mn pos \<le> mp"
  defines "c \<equiv> mp mod DICTIONARY_SIZE"
  defines "ch1 \<equiv> (children d)[nat rl := mp]"
  shows "tree_inv pos mx (d\<lparr>children := ch1\<rparr>) (ch1 ! nat (c * 2)) ll (c * 2)"
proof -
  note v = valid_node [OF t m, folded c_def]
  have lf: "leaf_ok pos (children d) mp ll" "leaf_ok pos (children d) mp rl"
    using t by (simp_all add: tree_inv_def)
  have "nat rl \<noteq> nat (c * 2)" using v(5,10) lf(2) by (auto simp: leaf_ok_def)
  then have e: "ch1 ! nat (c * 2) = children d ! nat (c * 2)" by (simp add: ch1_def)
  have cv: "child_val mp (owner pos rl)" using lf(2) v(1) by (simp add: leaf_ok_def child_val_def)
  have o: "others_ok pos ch1 ll (c * 2)"
    unfolding ch1_def using others_ok_move [of pos "children d" ll rl mp "c * 2"] t cv v(5) lf(2)
    by (simp add: tree_inv_def leaf_ok_def)
  have lt: "children d ! nat (c * 2) < mp" using v(13) v(1) by (rule child_val_less)
  have l1: "leaf_ok pos ch1 (ch1 ! nat (c * 2)) ll"
    using lf(1) lt unfolding e by (simp add: leaf_ok_def ch1_def)
  have l2: "leaf_ok pos ch1 (ch1 ! nat (c * 2)) (c * 2)"
    unfolding e using v(1,5,6,7) lt by (simp add: leaf_ok_def ch1_def)
  show ?thesis using t o l1 l2 by (simp add: tree_inv_def ch1_def)
qed

lemma tree_inv_left:
  assumes t: "tree_inv pos mx d mp ll rl" and m: "search_mn pos \<le> mp"
  defines "c \<equiv> mp mod DICTIONARY_SIZE"
  defines "ch1 \<equiv> (children d)[nat ll := mp]"
  shows "tree_inv pos mx (d\<lparr>children := ch1\<rparr>) (ch1 ! nat (c * 2 + 1)) (c * 2 + 1) rl"
proof -
  note v = valid_node [OF t m, folded c_def]
  have lf: "leaf_ok pos (children d) mp ll" "leaf_ok pos (children d) mp rl"
    using t by (simp_all add: tree_inv_def)
  have "nat ll \<noteq> nat (c * 2 + 1)" using v(5,11) lf(1) by (auto simp: leaf_ok_def)
  then have e: "ch1 ! nat (c * 2 + 1) = children d ! nat (c * 2 + 1)" by (simp add: ch1_def)
  have cv: "child_val mp (owner pos ll)" using lf(1) v(1) by (simp add: leaf_ok_def child_val_def)
  have "others_ok pos ch1 rl (c * 2 + 1)"
    unfolding ch1_def using others_ok_move [of pos "children d" rl ll mp "c * 2 + 1"] t cv v(5) lf(1)
    by (simp add: tree_inv_def leaf_ok_def others_ok_sym)
  then have o: "others_ok pos ch1 (c * 2 + 1) rl" by (simp add: others_ok_sym)
  have lt: "children d ! nat (c * 2 + 1) < mp" using v(14) v(1) by (rule child_val_less)
  have l1: "leaf_ok pos ch1 (ch1 ! nat (c * 2 + 1)) rl"
    using lf(2) lt unfolding e by (simp add: leaf_ok_def ch1_def)
  have l2: "leaf_ok pos ch1 (ch1 ! nat (c * 2 + 1)) (c * 2 + 1)"
    unfolding e using v(1,5,6,8) lt by (simp add: leaf_ok_def ch1_def)
  show ?thesis using t o l1 l2 by (simp add: tree_inv_def ch1_def)
qed

definition cands_ok :: "int \<Rightarrow> Match list \<Rightarrow> bool" where
  "cands_ok L cs \<longleftrightarrow>
     (\<forall>m \<in> set cs. MIN_MATCH_LENGTH \<le> Length m \<and> Length m \<le> L
          \<and> 1 \<le> Offset m \<and> Offset m < DICTIONARY_SIZE) \<and>
     sorted_wrt (\<lambda>a b. Length a < Length b) cs"

definition cand_inv :: "int \<Rightarrow> FindState \<Rightarrow> bool" where
  "cand_inv L st \<longleftrightarrow>
     (case matchCandidates st of
        None \<Rightarrow> True
      | Some cs \<Rightarrow> matchCandidateCount st \<le> int (length cs)
          \<and> cands_ok L (take (nat (matchCandidateCount st)) cs))"

definition same_frame :: "Dictionary \<Rightarrow> Dictionary \<Rightarrow> bool" where
  "same_frame d d' \<longleftrightarrow>
     buffer d' = buffer d \<and> bufferBase d' = bufferBase d \<and>
     matchableBufferLength d' = matchableBufferLength d \<and>
     absolutePosition d' = absolutePosition d \<and> hashTable d' = hashTable d \<and>
     length (children d') = length (children d)"

definition loop_inv :: "int \<Rightarrow> int \<Rightarrow> FindState \<Rightarrow> bool" where
  "loop_inv pos mx st \<longleftrightarrow>
     tree_inv pos mx (dictionary st) (matchPosition st) (leftSubtreeLeaf st) (rightSubtreeLeaf st) \<and>
     0 \<le> lowMatchLength st \<and> lowMatchLength st < mx \<and>
     0 \<le> highMatchLength st \<and> highMatchLength st < mx \<and>
     0 \<le> longestMatchLength st \<and> longestMatchLength st < mx \<and>
     mx \<le> MAX_MATCH_LENGTH \<and>
     uint (matchCount st) \<le> MAX_MATCH_CANDIDATE_COUNT \<and>
     0 \<le> matchCandidateCount st \<and> matchCandidateCount st \<le> uint (matchCount st) \<and>
     cand_inv (longestMatchLength st) st"

definition search_done :: "int \<Rightarrow> int \<Rightarrow> FindState \<Rightarrow> FindState \<Rightarrow> bool" where
  "search_done pos mx st st' \<longleftrightarrow>
     same_frame (dictionary st) (dictionary st') \<and>
     ch_ok pos (children (dictionary st')) \<and>
     0 \<le> matchCandidateCount st' \<and> matchCandidateCount st' \<le> MAX_MATCH_CANDIDATE_COUNT \<and>
     map_option length (matchCandidates st') = map_option length (matchCandidates st) \<and>
     cand_inv mx st'"

lemma same_frame_refl: "same_frame d d"
  by (simp add: same_frame_def)

lemma same_frame_trans: "same_frame d d' \<Longrightarrow> same_frame d' d'' \<Longrightarrow> same_frame d d''"
  by (simp add: same_frame_def)

lemma same_frame_children: "same_frame d (d\<lparr>children := (children d)[i := v]\<rparr>)"
  by (simp add: same_frame_def)

lemma same_frame_children2: "same_frame d (d\<lparr>children := (children d)[i := v, j := w]\<rparr>)"
  by (simp add: same_frame_def)

lemma cands_ok_mono: "cands_ok L cs \<Longrightarrow> L \<le> L' \<Longrightarrow> cands_ok L' cs"
  by (fastforce simp: cands_ok_def)

lemma cands_ok_snoc:
  assumes "cands_ok L (take n cs)" "n < length cs" "L < r" "MIN_MATCH_LENGTH \<le> r"
    "1 \<le> ofs" "ofs < DICTIONARY_SIZE"
  shows "cands_ok r (take (Suc n) (cs[n := \<lparr>Length = r, Offset = ofs\<rparr>]))"
proof -
  have e: "take (Suc n) (cs[n := \<lparr>Length = r, Offset = ofs\<rparr>]) = take n cs @ [\<lparr>Length = r, Offset = ofs\<rparr>]"
    using assms(2) by (simp add: take_Suc_conv_app_nth)
  show ?thesis unfolding e using assms
    by (fastforce simp: cands_ok_def sorted_wrt_append)
qed

lemma cand_inv_mono: "cand_inv L st \<Longrightarrow> L \<le> L' \<Longrightarrow> cand_inv L' st"
  by (auto simp: cand_inv_def split: option.splits intro: cands_ok_mono)

lemma descend_loop_inv:
  assumes inv: "loop_inv pos mx s" and m: "search_mn pos \<le> matchPosition s"
    and r: "0 \<le> r" "r < mx"
  shows "\<exists>st'. descend s pos (matchPosition s mod DICTIONARY_SIZE) r = Some st' \<and>
           loop_inv pos mx st' \<and> same_frame (dictionary s) (dictionary st') \<and>
           matchCandidates st' = matchCandidates s"
proof -
  define d where "d = dictionary s"
  define mp where "mp = matchPosition s"
  define c where "c = mp mod DICTIONARY_SIZE"
  have t: "tree_inv pos mx d mp (leftSubtreeLeaf s) (rightSubtreeLeaf s)"
    using inv by (simp add: loop_inv_def d_def mp_def)
  note v = valid_node [OF t m [folded mp_def], folded c_def]
  have lf: "leaf_ok pos (children d) mp (leftSubtreeLeaf s)"
      "leaf_ok pos (children d) mp (rightSubtreeLeaf s)"
    using t by (simp_all add: tree_inv_def)
  have ctx: "0 \<le> bufferBase d" "0 \<le> pos" "bufferBase d + pos + mx \<le> int (length (buffer d))"
    using t by (simp_all add: tree_inv_def)
  obtain a where a: "at (buffer d) (bufferBase d + pos + r) = Some a"
    using ctx r by (simp add: at_def)
  obtain b where b: "at (buffer d) (bufferBase d + mp + r) = Some b"
    using ctx r v(1,2) by (simp add: at_def)
  show ?thesis
  proof (cases "a < b")
    case True
    define ch1 where "ch1 = (children d)[nat (rightSubtreeLeaf s) := mp]"
    define st' where "st' = s\<lparr>dictionary := d\<lparr>children := ch1\<rparr>,
            rightSubtreeLeaf := c * 2, matchPosition := ch1 ! nat (c * 2), highMatchLength := r\<rparr>"
    have e: "descend s pos c r = Some st'"
      using descend_right_eq [of s pos r a b c] a b True lf(2) v(5,6)
      by (simp add: d_def mp_def leaf_ok_def st'_def ch1_def)
    have t': "tree_inv pos mx (d\<lparr>children := ch1\<rparr>) (ch1 ! nat (c * 2)) (leftSubtreeLeaf s) (c * 2)"
      using tree_inv_right [OF t m [folded mp_def]] by (simp add: c_def ch1_def)
    have "loop_inv pos mx st'"
      using inv t' r by (simp add: loop_inv_def st'_def cand_inv_def split: option.splits)
    moreover have "same_frame (dictionary s) (dictionary st')"
      by (simp add: st'_def same_frame_def d_def ch1_def)
    moreover have "matchCandidates st' = matchCandidates s" by (simp add: st'_def)
    ultimately show ?thesis using e by (auto simp: c_def mp_def)
  next
    case False
    define ch1 where "ch1 = (children d)[nat (leftSubtreeLeaf s) := mp]"
    define st' where "st' = s\<lparr>dictionary := d\<lparr>children := ch1\<rparr>,
            leftSubtreeLeaf := c * 2 + 1, matchPosition := ch1 ! nat (c * 2 + 1), lowMatchLength := r\<rparr>"
    have e: "descend s pos c r = Some st'"
      using descend_left_eq [of s pos r a b c] a b False lf(1) v(5,6)
      by (simp add: d_def mp_def leaf_ok_def st'_def ch1_def)
    have t': "tree_inv pos mx (d\<lparr>children := ch1\<rparr>) (ch1 ! nat (c * 2 + 1)) (c * 2 + 1) (rightSubtreeLeaf s)"
      using tree_inv_left [OF t m [folded mp_def]] by (simp add: c_def ch1_def)
    have "loop_inv pos mx st'"
      using inv t' r by (simp add: loop_inv_def st'_def cand_inv_def split: option.splits)
    moreover have "same_frame (dictionary s) (dictionary st')"
      by (simp add: st'_def same_frame_def d_def ch1_def)
    moreover have "matchCandidates st' = matchCandidates s" by (simp add: st'_def)
    ultimately show ?thesis using e by (auto simp: c_def mp_def)
  qed
qed

lemma delete_node_done:
  assumes t: "tree_inv pos mx (dictionary s) (matchPosition s) (leftSubtreeLeaf s) (rightSubtreeLeaf s)"
    and m: "search_mn pos \<le> matchPosition s"
  shows "\<exists>st'. delete_node s (matchPosition s mod DICTIONARY_SIZE) = Some st' \<and>
           same_frame (dictionary s) (dictionary st') \<and> ch_ok pos (children (dictionary st')) \<and>
           matchCandidates st' = matchCandidates s \<and>
           matchCandidateCount st' = matchCandidateCount s"
proof -
  define c where "c = matchPosition s mod DICTIONARY_SIZE"
  note v = valid_node [OF t m, folded c_def]
  have lf: "leaf_ok pos (children (dictionary s)) (matchPosition s) (leftSubtreeLeaf s)"
      "leaf_ok pos (children (dictionary s)) (matchPosition s) (rightSubtreeLeaf s)"
    using t by (simp_all add: tree_inv_def)
  note e = delete_node_eq [of c s, OF v(5) v(6)]
  have e': "delete_node s c = Some (s\<lparr>dictionary := (dictionary s)\<lparr>children :=
            ((children (dictionary s))[nat (leftSubtreeLeaf s) := children (dictionary s) ! nat (c * 2)])
              [nat (rightSubtreeLeaf s) :=
                 ((children (dictionary s))[nat (leftSubtreeLeaf s) := children (dictionary s) ! nat (c * 2)])
                   ! nat (c * 2 + 1)]\<rparr>\<rparr>)"
    using e lf by (simp add: leaf_ok_def)
  show ?thesis
    unfolding c_def [symmetric] e'
    using tree_inv_delete [OF t m, folded c_def]
    by (simp add: same_frame_def)
qed

lemma finish_tree_done:
  assumes inv: "loop_inv pos mx st"
  shows "\<exists>st'. finish_tree st = Some st' \<and> search_done pos mx st st'"
proof -
  have t: "tree_inv pos mx (dictionary st) (matchPosition st) (leftSubtreeLeaf st) (rightSubtreeLeaf st)"
    using inv by (simp add: loop_inv_def)
  have lf: "leaf_ok pos (children (dictionary st)) (matchPosition st) (leftSubtreeLeaf st)"
      "leaf_ok pos (children (dictionary st)) (matchPosition st) (rightSubtreeLeaf st)"
    using t by (simp_all add: tree_inv_def)
  have e: "finish_tree st = Some (st\<lparr>dictionary := (dictionary st)\<lparr>children :=
             (children (dictionary st))[nat (leftSubtreeLeaf st) := INVALID_POSITION,
                                        nat (rightSubtreeLeaf st) := INVALID_POSITION]\<rparr>\<rparr>)"
    using finish_tree_eq [of st] lf by (simp add: leaf_ok_def)
  have c: "cand_inv mx st" using inv by (auto simp: loop_inv_def intro: cand_inv_mono)
  show ?thesis unfolding e
    using tree_inv_finish [OF t] inv c
    by (simp add: search_done_def same_frame_def loop_inv_def cand_inv_def split: option.splits)
qed

lemma matchCount_succ:
  assumes "uint (c :: uint) \<le> MAX_MATCH_CANDIDATE_COUNT" "c \<noteq> word_of_int MAX_MATCH_CANDIDATE_COUNT"
  shows "uint (c + 1) = uint c + 1" "uint (c + 1) \<le> MAX_MATCH_CANDIDATE_COUNT"
proof -
  have "uint c \<noteq> MAX_MATCH_CANDIDATE_COUNT"
    using assms(2) by (metis word_of_int_uint)
  hence lt: "uint c < MAX_MATCH_CANDIDATE_COUNT" using assms(1) by simp
  hence "uint c + 1 < 2 ^ 64" by (simp add: MAX_MATCH_CANDIDATE_COUNT_def)
  thus "uint (c + 1) = uint c + 1"
    by (simp add: uint_word_arith_bintrs take_bit_int_eq_self)
  thus "uint (c + 1) \<le> MAX_MATCH_CANDIDATE_COUNT" using lt by simp
qed

lemma find_step_inv:
  assumes inv: "loop_inv pos mx st"
  shows "case find_step pos (search_mn pos) mx st of
           None \<Rightarrow> (\<exists>cs. matchCandidates st = Some cs \<and> int (length cs) < MAX_MATCH_CANDIDATE_COUNT)
         | Some (Inl st') \<Rightarrow> search_done pos mx st st'
         | Some (Inr st') \<Rightarrow> loop_inv pos mx st' \<and> same_frame (dictionary st) (dictionary st')
              \<and> map_option length (matchCandidates st') = map_option length (matchCandidates st)"
proof (cases "matchPosition st < search_mn pos \<or> matchCount st = word_of_int MAX_MATCH_CANDIDATE_COUNT")
  case True
  obtain st' where f: "finish_tree st = Some st'" and d: "search_done pos mx st st'"
    using finish_tree_done [OF inv] by blast
  have "find_step pos (search_mn pos) mx st = Some (Inl st')"
    using True f by (simp add: find_step_def)
  thus ?thesis using d by simp
next
  case False
  hence m: "search_mn pos \<le> matchPosition st"
    and nz: "matchCount st \<noteq> word_of_int MAX_MATCH_CANDIDATE_COUNT" by auto
  define d where "d = dictionary st"
  define mp where "mp = matchPosition st"
  define c where "c = mp mod DICTIONARY_SIZE"
  define s1 where "s1 = st\<lparr>matchCount := matchCount st + 1\<rparr>"
  have t: "tree_inv pos mx d mp (leftSubtreeLeaf st) (rightSubtreeLeaf st)"
    using inv by (simp add: loop_inv_def d_def mp_def)
  note v = valid_node [OF t m [folded mp_def], folded c_def]
  have ctx: "0 \<le> bufferBase d" "0 \<le> pos" "bufferBase d + pos + mx \<le> int (length (buffer d))"
    "3 \<le> mx"
    using t by (simp_all add: tree_inv_def)
  have bounds: "0 \<le> lowMatchLength st" "lowMatchLength st < mx" "0 \<le> highMatchLength st"
    "highMatchLength st < mx" "0 \<le> longestMatchLength st" "longestMatchLength st < mx"
    "uint (matchCount st) \<le> MAX_MATCH_CANDIDATE_COUNT" "0 \<le> matchCandidateCount st"
    "matchCandidateCount st \<le> uint (matchCount st)" "cand_inv (longestMatchLength st) st"
    using inv by (simp_all add: loop_inv_def)
  note mc = matchCount_succ [OF bounds(7) nz]
  define ml0 where "ml0 = min (lowMatchLength st) (highMatchLength st)"
  obtain r where r: "match_extend (buffer d) (bufferBase d + pos) (bufferBase d + mp) ml0 mx = Some r"
      and r0: "ml0 \<le> r" and r1: "r \<le> mx"
    using match_extend_Some [of "bufferBase d + pos" "bufferBase d + mp" ml0 mx "buffer d"]
      ctx v(1,2) bounds(1-4) by (auto simp: ml0_def)
  have r00: "0 \<le> r" using r0 bounds(1,3) by (simp add: ml0_def)
  have inv1: "loop_inv pos mx s1"
    using inv mc by (simp add: loop_inv_def s1_def cand_inv_def split: option.splits)
  have s1f: "dictionary s1 = d" "matchPosition s1 = mp" "matchCandidates s1 = matchCandidates st"
    "lowMatchLength s1 = lowMatchLength st" "highMatchLength s1 = highMatchLength st"
    "longestMatchLength s1 = longestMatchLength st"
    "matchCandidateCount s1 = matchCandidateCount st"
    by (simp_all add: s1_def d_def mp_def)
  have step: "find_step pos (search_mn pos) mx st =
     (if r > longestMatchLength st \<and> r \<ge> MIN_MATCH_LENGTH then do {
          s2 \<leftarrow> add_candidate (s1\<lparr>longestMatchLength := r\<rparr>) r (pos - mp);
          if r = mx
          then map_option Inl (delete_node s2 c)
          else map_option Inr (descend s2 pos c r)
        } else map_option Inr (descend s1 pos c r))"
    using False r v(4)
    by (simp add: find_step_def Let_def s1_def [symmetric] d_def [symmetric] mp_def [symmetric]
        ml0_def [symmetric] s1f del: bind_eq_Some_conv bind_eq_None_conv cong: if_cong)
  show ?thesis
  proof (cases "r > longestMatchLength st \<and> r \<ge> MIN_MATCH_LENGTH")
    case nolong: False
    hence rlt: "r < mx" using bounds(6) r1 ctx(4) by (auto simp: MIN_MATCH_LENGTH_def)
    obtain st' where e: "descend s1 pos c r = Some st'" and i': "loop_inv pos mx st'"
       and sf: "same_frame (dictionary s1) (dictionary st')"
       and mcs: "matchCandidates st' = matchCandidates s1"
      using descend_loop_inv [OF inv1 _ r00 rlt] m by (auto simp: s1f c_def mp_def)
    have "find_step pos (search_mn pos) mx st = Some (Inr st')"
      using nolong e unfolding step by auto
    thus ?thesis using i' sf mcs by (simp add: s1f d_def)
  next
    case long: True
    define s1' where "s1' = s1\<lparr>longestMatchLength := r\<rparr>"
    have lt128: "uint (matchCount st) < MAX_MATCH_CANDIDATE_COUNT"
      using mc by simp
    have ofs: "1 \<le> pos - mp" "pos - mp < DICTIONARY_SIZE" using v(2,3) by simp_all
    have add: "(add_candidate s1' r (pos - mp) = None \<and>
          (\<exists>cs. matchCandidates st = Some cs \<and> int (length cs) < MAX_MATCH_CANDIDATE_COUNT)) \<or>
       (\<exists>s2. add_candidate s1' r (pos - mp) = Some s2 \<and> dictionary s2 = d \<and>
          matchPosition s2 = mp \<and> leftSubtreeLeaf s2 = leftSubtreeLeaf st \<and>
          rightSubtreeLeaf s2 = rightSubtreeLeaf st \<and>
          lowMatchLength s2 = lowMatchLength st \<and> highMatchLength s2 = highMatchLength st \<and>
          longestMatchLength s2 = r \<and> matchCount s2 = matchCount st + 1 \<and>
          0 \<le> matchCandidateCount s2 \<and> matchCandidateCount s2 \<le> uint (matchCount st) + 1 \<and>
          cand_inv r s2 \<and>
          map_option length (matchCandidates s2) = map_option length (matchCandidates st))"
    proof (cases "matchCandidates st")
      case None
      hence "add_candidate s1' r (pos - mp) = Some s1'"
        by (intro add_candidate_nil) (simp add: s1'_def s1_def)
      moreover have "cand_inv r s1'" using None by (simp add: cand_inv_def s1'_def s1_def)
      ultimately show ?thesis using bounds(8,9)
        by (simp add: s1'_def s1_def d_def mp_def)
    next
      case (Some cs)
      have ci: "matchCandidateCount st \<le> int (length cs)"
          "cands_ok (longestMatchLength st) (take (nat (matchCandidateCount st)) cs)"
        using bounds(10) Some by (simp_all add: cand_inv_def)
      have mc1: "matchCandidates s1' = Some cs" "matchCandidateCount s1' = matchCandidateCount st"
        using Some by (simp_all add: s1'_def s1_def)
      show ?thesis
      proof (cases "matchCandidateCount st < int (length cs)")
        case False
        hence "add_candidate s1' r (pos - mp) = None"
          using add_candidate_full [of s1' cs r "pos - mp"] mc1 by simp
        moreover have "int (length cs) < MAX_MATCH_CANDIDATE_COUNT"
          using False bounds(9) lt128 by simp
        ultimately show ?thesis using Some by simp
      next
        case True
        define n where "n = nat (matchCandidateCount st)"
        define s2 where "s2 = s1'\<lparr>matchCandidates :=
             Some (cs[n := \<lparr>Length = r, Offset = pos - mp\<rparr>]),
           matchCandidateCount := matchCandidateCount st + 1\<rparr>"
        have e: "add_candidate s1' r (pos - mp) = Some s2"
          using add_candidate_eq [of s1' cs r "pos - mp"] mc1 True bounds(8)
          by (simp add: s2_def n_def)
        have nl: "n < length cs" using True bounds(8) by (simp add: n_def)
        have "cands_ok r (take (Suc n) (cs[n := \<lparr>Length = r, Offset = pos - mp\<rparr>]))"
          using cands_ok_snoc [OF ci(2) [folded n_def] nl _ _ ofs] long by simp
        moreover have "nat (matchCandidateCount st + 1) = Suc n"
          using bounds(8) by (simp add: n_def)
        ultimately have "cand_inv r s2"
          using True by (simp add: cand_inv_def s2_def)
        thus ?thesis using e bounds(8,9) Some
          by (simp add: s2_def s1'_def s1_def d_def mp_def)
      qed
    qed
    show ?thesis
    proof (cases "add_candidate s1' r (pos - mp)")
      case None
      hence "find_step pos (search_mn pos) mx st = None"
        using long unfolding step s1'_def by simp
      thus ?thesis using add None by simp
    next
      case (Some s2)
      hence p: "dictionary s2 = d" "matchPosition s2 = mp" "leftSubtreeLeaf s2 = leftSubtreeLeaf st"
          "rightSubtreeLeaf s2 = rightSubtreeLeaf st"
          "lowMatchLength s2 = lowMatchLength st" "highMatchLength s2 = highMatchLength st"
          "longestMatchLength s2 = r" "matchCount s2 = matchCount st + 1"
          "0 \<le> matchCandidateCount s2" "matchCandidateCount s2 \<le> uint (matchCount st) + 1"
          "cand_inv r s2"
          "map_option length (matchCandidates s2) = map_option length (matchCandidates st)"
        using add by simp_all
      have t2: "tree_inv pos mx (dictionary s2) (matchPosition s2) (leftSubtreeLeaf s2)
           (rightSubtreeLeaf s2)"
        using t p by simp
      have m2: "search_mn pos \<le> matchPosition s2" using m p by (simp add: mp_def)
      show ?thesis
      proof (cases "r = mx")
        case True
        obtain st' where e: "delete_node s2 c = Some st'"
           and sf: "same_frame (dictionary s2) (dictionary st')"
           and ch: "ch_ok pos (children (dictionary st'))"
           and mcs: "matchCandidates st' = matchCandidates s2"
           and mcc: "matchCandidateCount st' = matchCandidateCount s2"
          using delete_node_done [OF t2 m2] p(2) by (auto simp: c_def)
        have f: "find_step pos (search_mn pos) mx st = Some (Inl st')"
          using long Some True e unfolding step s1'_def by simp
        have "cand_inv mx st'"
          using p(11) True mcs mcc by (simp add: cand_inv_def split: option.splits)
        hence "search_done pos mx st st'"
          using sf ch mcs mcc p lt128
          by (simp add: search_done_def d_def)
        thus ?thesis using f by simp
      next
        case False
        hence rlt: "r < mx" using r1 by simp
        have inv2: "loop_inv pos mx s2"
          using t2 p bounds rlt r00 mc inv by (simp add: loop_inv_def)
        obtain st' where e: "descend s2 pos c r = Some st'" and i': "loop_inv pos mx st'"
           and sf: "same_frame (dictionary s2) (dictionary st')"
           and mcs: "matchCandidates st' = matchCandidates s2"
          using descend_loop_inv [OF inv2 m2 r00 rlt] p(2) by (auto simp: c_def)
        have f: "find_step pos (search_mn pos) mx st = Some (Inr st')"
          using long Some False e unfolding step s1'_def by simp
        show ?thesis using f i' sf mcs p by (simp add: d_def)
      qed
    qed
  qed
qed

lemma search_done_step:
  assumes "same_frame (dictionary st) (dictionary st1)"
    "map_option length (matchCandidates st1) = map_option length (matchCandidates st)"
    "search_done pos mx st1 st'"
  shows "search_done pos mx st st'"
  using assms by (auto simp: search_done_def intro: same_frame_trans)

lemma find_loop_inv:
  assumes "loop_inv pos mx st" "mn = search_mn pos"
  shows "case find_loop pos mn mx st of
           None \<Rightarrow> (\<exists>cs. matchCandidates st = Some cs \<and> int (length cs) < MAX_MATCH_CANDIDATE_COUNT)
         | Some st' \<Rightarrow> search_done pos mx st st'"
  using assms
proof (induction pos mn mx st rule: find_loop.induct)
  case (1 pos mn mx st)
  note s = find_step_inv [OF "1.prems"(1), folded "1.prems"(2)]
  show ?case
  proof (cases "find_step pos mn mx st")
    case None
    thus ?thesis using s by (subst find_loop.simps) simp
  next
    case (Some r)
    show ?thesis
    proof (cases r)
      case (Inl st')
      thus ?thesis using s Some by (subst find_loop.simps) simp
    next
      case (Inr st1)
      have i1: "loop_inv pos mx st1" and sf: "same_frame (dictionary st) (dictionary st1)"
        and ln: "map_option length (matchCandidates st1) = map_option length (matchCandidates st)"
        using s Some Inr by simp_all
      note ih = "1.IH" [OF Some Inr i1 "1.prems"(2)]
      have e: "find_loop pos mn mx st = find_loop pos mn mx st1"
        using Some Inr by (subst find_loop.simps) simp
      show ?thesis
      proof (cases "find_loop pos mn mx st1")
        case None
        thus ?thesis using ih ln e by (cases "matchCandidates st") auto
      next
        case (Some st')
        thus ?thesis using ih e search_done_step [OF sf ln] by simp
      qed
    qed
  qed
qed

subsection \<open>The invariant of the dictionary between calls\<close>

text \<open>
  \<open>next_position\<close> is the relative position the next searching call inserts: calls past
  the matchable part of the buffer only count \<open>absolutePosition\<close> up. Between calls every
  hash table entry is unset or a position already inserted, and the child slots satisfy
  \<open>ch_ok\<close> for the position inserted last. The tables are nil only before the first
  \<open>SetBuffer\<close>.
\<close>

definition ht_ok :: "int \<Rightarrow> int list \<Rightarrow> bool" where
  "ht_ok P ht \<longleftrightarrow> (\<forall>v \<in> set ht. v = INVALID_POSITION \<or> (0 \<le> v \<and> v < P))"

definition next_position :: "Dictionary \<Rightarrow> int" where
  "next_position d = min (absolutePosition d) (matchableBufferLength d) - bufferBase d"

definition dict_ok :: "Dictionary \<Rightarrow> bool" where
  "dict_ok d \<longleftrightarrow>
     matchableBufferLength d = max 0 (int (length (buffer d)) - (TAIL_LENGTH + MIN_MATCH_LENGTH)) \<and>
     0 \<le> bufferBase d \<and> bufferBase d \<le> absolutePosition d \<and>
     bufferBase d \<le> matchableBufferLength d \<and>
     ((hashTable d = [] \<and> children d = [] \<and> matchableBufferLength d = 0) \<or>
      (int (length (hashTable d)) = HASH_TABLE_SIZE \<and> int (length (children d)) = CHILD_COUNT)) \<and>
     ht_ok (next_position d) (hashTable d) \<and>
     ch_ok (next_position d - 1) (children d)"

lemma RT_val: "REBASE_THRESHOLD = 2 ^ 63 - 2 ^ 21"
  by (simp add: REBASE_THRESHOLD_def MaxInt_def DICTIONARY_SIZE_def)

lemma rebaseDelta_props:
  "0 < REBASE_THRESHOLD - DICTIONARY_SIZE"
  "(REBASE_THRESHOLD - DICTIONARY_SIZE) mod DICTIONARY_SIZE = 0"
  by (simp_all add: RT_val DICTIONARY_SIZE_def)

lemma update_first_all:
  assumes "int (length xs) = n"
  shows "update_first f xs 0 n = Some (map f xs)"
  using assms by (auto simp: update_first_closed)

lemma ht_ok_rebased:
  assumes "ht_ok P ht" "0 < delta"
  shows "ht_ok (P - delta) (map (rebased delta) ht)"
  using assms by (fastforce simp: ht_ok_def rebased_def INVALID_POSITION_def)

lemma ch_ok_rebased:
  assumes c: "ch_ok pos ch" and d: "0 < delta" "delta mod DICTIONARY_SIZE = 0"
  shows "ch_ok (pos - delta) (map (rebased delta) ch)"
  unfolding ch_ok_def
proof (intro allI impI)
  fix j assume j: "0 \<le> j \<and> j < int (length (map (rebased delta) ch))"
  hence j': "0 \<le> j \<and> j < int (length ch)" by simp
  hence s: "slot_ok pos ch j" using c by (simp add: ch_ok_def)
  have n: "map (rebased delta) ch ! nat j = rebased delta (ch ! nat j)"
    using j' by (intro nth_map) linarith
  show "slot_ok (pos - delta) (map (rebased delta) ch) j"
    unfolding slot_ok_def n owner_shift [OF d(2)]
  proof
    assume "0 \<le> owner pos j - delta"
    hence o: "delta \<le> owner pos j" by simp
    hence "ch ! nat j = INVALID_POSITION \<or> (0 \<le> ch ! nat j \<and> ch ! nat j < owner pos j)"
      using s d(1) by (simp add: slot_ok_def)
    thus "rebased delta (ch ! nat j) = INVALID_POSITION \<or>
          (0 \<le> rebased delta (ch ! nat j) \<and> rebased delta (ch ! nat j) < owner pos j - delta)"
      using d(1) by (auto simp: rebased_def INVALID_POSITION_def)
  qed
qed

lemma computeRelativePosition_ok:
  assumes ok: "dict_ok d" and lt: "absolutePosition d < matchableBufferLength d"
  shows "\<exists>d1 pos. computeRelativePosition d = Some (d1, pos) \<and>
           buffer d1 = buffer d \<and> absolutePosition d1 = absolutePosition d \<and>
           matchableBufferLength d1 = matchableBufferLength d \<and>
           bufferBase d1 + pos = absolutePosition d \<and> 0 \<le> pos \<and> 0 \<le> bufferBase d1 \<and>
           int (length (hashTable d1)) = HASH_TABLE_SIZE \<and>
           int (length (children d1)) = CHILD_COUNT \<and>
           ht_ok pos (hashTable d1) \<and> ch_ok (pos - 1) (children d1)"
proof -
  have np: "next_position d = absolutePosition d - bufferBase d"
    using lt by (simp add: next_position_def)
  have f: "0 \<le> bufferBase d" "bufferBase d \<le> absolutePosition d"
      "int (length (hashTable d)) = HASH_TABLE_SIZE" "int (length (children d)) = CHILD_COUNT"
      "ht_ok (absolutePosition d - bufferBase d) (hashTable d)"
      "ch_ok (absolutePosition d - bufferBase d - 1) (children d)"
    using ok lt unfolding dict_ok_def np by auto
  show ?thesis
  proof (cases "absolutePosition d - bufferBase d = REBASE_THRESHOLD")
    case False
    thus ?thesis using f by (simp add: computeRelativePosition_def)
  next
    case True
    define delta where "delta = REBASE_THRESHOLD - DICTIONARY_SIZE"
    note dp = rebaseDelta_props [folded delta_def]
    have e: "computeRelativePosition d =
        Some (d\<lparr>bufferBase := bufferBase d + delta, hashTable := map (rebased delta) (hashTable d),
                children := map (rebased delta) (children d)\<rparr>,
              absolutePosition d - bufferBase d - delta)"
      using True update_first_all [OF f(3)] update_first_all [OF f(4)]
      by (simp add: computeRelativePosition_def Let_def delta_def)
    have h: "ht_ok (absolutePosition d - bufferBase d - delta) (map (rebased delta) (hashTable d))"
      using ht_ok_rebased [OF f(5) dp(1)] .
    have c: "ch_ok (absolutePosition d - bufferBase d - delta - 1) (map (rebased delta) (children d))"
      using ch_ok_rebased [OF f(6) dp] by (simp add: algebra_simps)
    have p: "0 \<le> absolutePosition d - bufferBase d - delta"
      using True D_pos by (simp add: delta_def)
    show ?thesis unfolding e using h c p f dp(1) by simp
  qed
qed

lemma hash_Some:
  assumes "0 \<le> p" "p + 3 \<le> int (length data)"
  shows "\<exists>h. hash data p = Some h"
  using assms by (simp add: hash_def at_def Let_def)

lemma hashValue_bound: "uint ((h :: uint) mod word_of_int HASH_TABLE_SIZE) < HASH_TABLE_SIZE"
proof -
  have "uint (h mod word_of_int HASH_TABLE_SIZE) = uint h mod HASH_TABLE_SIZE"
    by (simp add: HASH_TABLE_SIZE_def uint_mod_distrib)
  thus ?thesis by (simp add: HASH_TABLE_SIZE_def)
qed

lemma ht_ok_update:
  assumes "ht_ok P ht" "0 \<le> P"
  shows "ht_ok (P + 1) (ht[i := P])"
proof -
  have "set (ht[i := P]) \<subseteq> insert P (set ht)" by (rule set_update_subset_insert)
  thus ?thesis using assms by (fastforce simp: ht_ok_def)
qed

lemma ht_ok_nth: "ht_ok P ht \<Longrightarrow> i < length ht \<Longrightarrow> ht ! i = INVALID_POSITION \<or> (0 \<le> ht ! i \<and> ht ! i < P)"
  by (simp add: ht_ok_def)

lemma others_ok_next:
  assumes c: "ch_ok (pos - 1) ch" and l: "int (length ch) = CHILD_COUNT" and p: "0 \<le> pos"
  shows "others_ok pos ch (pos mod DICTIONARY_SIZE * 2) (pos mod DICTIONARY_SIZE * 2 + 1)"
  unfolding others_ok_def
proof (intro allI impI)
  fix j
  assume j: "0 \<le> j \<and> j < int (length ch) \<and> j \<noteq> pos mod DICTIONARY_SIZE * 2 \<and>
             j \<noteq> pos mod DICTIONARY_SIZE * 2 + 1"
  have jd: "0 \<le> j div 2" "j div 2 < DICTIONARY_SIZE" "j div 2 \<noteq> pos mod DICTIONARY_SIZE"
    using j l by (auto simp: CC_val)
  have "owner pos j \<noteq> pos"
  proof
    assume "owner pos j = pos"
    hence "(pos - j div 2) mod DICTIONARY_SIZE = 0" by (simp add: owner_def)
    hence "pos mod DICTIONARY_SIZE = (j div 2) mod DICTIONARY_SIZE"
      by (metis mod_eq_dvd_iff dvd_eq_mod_eq_0)
    thus False using jd by (simp add: mod_pos_pos_trivial)
  qed
  hence "owner (pos - 1) j = owner pos j" by (rule owner_prev)
  moreover have "slot_ok (pos - 1) ch j" using c j by (simp add: ch_ok_def)
  ultimately show "slot_ok pos ch j" by (simp add: slot_ok_def)
qed

definition found_ok :: "Match list option \<Rightarrow> int \<Rightarrow> bool" where
  "found_ok out n \<longleftrightarrow> 0 \<le> n \<and> n \<le> MAX_MATCH_CANDIDATE_COUNT \<and>
     (case out of None \<Rightarrow> True
      | Some cs \<Rightarrow> n \<le> int (length cs) \<and> cands_ok MAX_MATCH_LENGTH (take (nat n) cs))"

lemma FindMatches_ok:
  assumes ok: "dict_ok d"
  shows "case FindMatches d out of
           None \<Rightarrow> (\<exists>cs. out = Some cs \<and> int (length cs) < MAX_MATCH_CANDIDATE_COUNT)
         | Some (d', out', n) \<Rightarrow> dict_ok d' \<and> buffer d' = buffer d \<and>
             absolutePosition d' = absolutePosition d + 1 \<and>
             map_option length out' = map_option length out \<and> found_ok out' n"
proof (cases "absolutePosition d \<ge> matchableBufferLength d")
  case True
  have e: "FindMatches d out = Some (d\<lparr>absolutePosition := absolutePosition d + 1\<rparr>, out, 0)"
    using True by (simp add: FindMatches_def)
  have "dict_ok (d\<lparr>absolutePosition := absolutePosition d + 1\<rparr>)"
    using ok True by (auto simp: dict_ok_def next_position_def)
  moreover have "found_ok out 0"
    by (simp add: found_ok_def MAX_MATCH_CANDIDATE_COUNT_def cands_ok_def split: option.splits)
  ultimately show ?thesis unfolding e by simp
next
  case False
  hence lt: "absolutePosition d < matchableBufferLength d" by simp
  define mx where "mx = min (int (length (buffer d)) - TAIL_LENGTH - absolutePosition d) MAX_MATCH_LENGTH"
  have ml: "matchableBufferLength d = int (length (buffer d)) - (TAIL_LENGTH + MIN_MATCH_LENGTH)"
      "0 \<le> absolutePosition d"
    using ok lt by (auto simp: dict_ok_def)
  have mxb: "3 \<le> mx" "mx \<le> MAX_MATCH_LENGTH"
      "absolutePosition d + mx \<le> int (length (buffer d))"
    using ml lt
    by (simp_all add: mx_def TAIL_LENGTH_def WORD_SIZE_def MIN_MATCH_LENGTH_def MAX_MATCH_LENGTH_def)
  obtain d1 pos where crp: "computeRelativePosition d = Some (d1, pos)"
    and d1: "buffer d1 = buffer d" "absolutePosition d1 = absolutePosition d"
      "matchableBufferLength d1 = matchableBufferLength d"
      "bufferBase d1 + pos = absolutePosition d" "0 \<le> pos" "0 \<le> bufferBase d1"
      "int (length (hashTable d1)) = HASH_TABLE_SIZE"
      "int (length (children d1)) = CHILD_COUNT"
      "ht_ok pos (hashTable d1)" "ch_ok (pos - 1) (children d1)"
    using computeRelativePosition_ok [OF ok lt] by blast
  obtain h where h: "hash (buffer d1) (bufferBase d1 + pos) = Some h"
    using hash_Some [of "bufferBase d1 + pos" "buffer d1"] d1 mxb ml by auto
  define hv where "hv = h mod word_of_int HASH_TABLE_SIZE"
  define i where "i = unat hv"
  have ib0: "uint hv < int (length (hashTable d1))"
    using hashValue_bound [of h] d1(7) by (simp add: hv_def)
  have "nat (uint hv) < length (hashTable d1)"
    using ib0 uint_ge_0 [of hv] by arith
  hence ib: "uint hv < int (length (hashTable d1))" "i < length (hashTable d1)"
    using ib0 unfolding i_def by simp_all
  define mp where "mp = hashTable d1 ! i"
  have mpv: "mp = INVALID_POSITION \<or> (0 \<le> mp \<and> mp < pos)"
    using ht_ok_nth [OF d1(9) ib(2)] by (simp add: mp_def)
  define d2 where "d2 = d1\<lparr>hashTable := (hashTable d1)[i := pos]\<rparr>"
  define c where "c = pos mod DICTIONARY_SIZE"
  define st0 where "st0 = \<lparr>dictionary = d2, matchCandidates = out, matchPosition = mp,
      leftSubtreeLeaf = c * 2, rightSubtreeLeaf = c * 2 + 1, lowMatchLength = 0,
      highMatchLength = 0, longestMatchLength = 0, matchCount = 0, matchCandidateCount = 0\<rparr>"
  have e: "FindMatches d out =
       find_loop pos (search_mn pos) mx st0 \<bind>
         (\<lambda>st. Some ((dictionary st)\<lparr>absolutePosition := absolutePosition (dictionary st) + 1\<rparr>,
                 matchCandidates st, matchCandidateCount st))"
    using False crp h ib(1) d1(5) D_pos
    by (simp add: FindMatches_def Let_def mx_def [symmetric] hv_def [symmetric] at_def put_def
        i_def [symmetric] mp_def [symmetric] d2_def [symmetric] go_mod_nonneg c_def [symmetric]
        st0_def [symmetric] search_mn_def [symmetric] d1
        del: bind_eq_Some_conv bind_eq_None_conv split del: if_split)
  have cb: "0 \<le> c" "c < DICTIONARY_SIZE" using D_pos by (simp_all add: c_def)
  have own: "owner pos (c * 2) = pos" "owner pos (c * 2 + 1) = pos"
    using owner_of_node [of pos pos 0] owner_of_node [of pos pos 1] d1(5) D_pos
    by (simp_all add: c_def)
  have mplt: "mp < pos" using mpv d1(5) by (auto simp: INVALID_POSITION_def)
  have t: "tree_inv pos mx d2 mp (c * 2) (c * 2 + 1)"
    unfolding tree_inv_def
    using d1 mxb others_ok_next [OF d1(10) d1(8) d1(5)] cb own mplt
    by (simp add: d2_def c_def [symmetric] leaf_ok_def CC_val)
  have li: "loop_inv pos mx st0"
    using t mxb by (simp add: loop_inv_def st0_def cand_inv_def cands_ok_def
        MAX_MATCH_CANDIDATE_COUNT_def split: option.splits)
  note fl = find_loop_inv [OF li refl]
  show ?thesis
  proof (cases "find_loop pos (search_mn pos) mx st0")
    case None
    thus ?thesis using fl e by (simp add: st0_def)
  next
    case (Some st)
    hence sd: "search_done pos mx st0 st" using fl by simp
    define d' where "d' = (dictionary st)\<lparr>absolutePosition := absolutePosition (dictionary st) + 1\<rparr>"
    have sf: "same_frame d2 (dictionary st)" "ch_ok pos (children (dictionary st))"
       "0 \<le> matchCandidateCount st" "matchCandidateCount st \<le> MAX_MATCH_CANDIDATE_COUNT"
       "map_option length (matchCandidates st) = map_option length out"
       "cand_inv mx st"
      using sd by (simp_all add: search_done_def st0_def)
    have fr: "buffer (dictionary st) = buffer d" "bufferBase (dictionary st) = bufferBase d1"
      "matchableBufferLength (dictionary st) = matchableBufferLength d"
      "absolutePosition (dictionary st) = absolutePosition d"
      "hashTable (dictionary st) = (hashTable d1)[i := pos]"
      "length (children (dictionary st)) = length (children d1)"
      using sf(1) d1 by (simp_all add: same_frame_def d2_def)
    have np: "next_position d' = pos + 1"
      using fr lt d1(4) by (simp add: next_position_def d'_def)
    have "dict_ok d'"
      unfolding dict_ok_def np
      using fr d1 ml lt ht_ok_update [OF d1(9) d1(5)] sf(2)
      by (simp add: d'_def)
    moreover have "found_ok (matchCandidates st) (matchCandidateCount st)"
      using sf(3,4,6) mxb(2)
      by (auto simp: found_ok_def cand_inv_def split: option.splits intro: cands_ok_mono)
    ultimately show ?thesis unfolding e Some using fr sf(5) by (simp add: d'_def)
  qed
qed

lemma ch_ok_before: "ch_ok (- 1) ch"
proof -
  have "\<not> 0 \<le> owner (- 1) j" for j using owner_le [of "- 1" j] by simp
  thus ?thesis by (simp add: ch_ok_def slot_ok_def)
qed

lemma ht_ok_cleared: "ht_ok P (map (\<lambda>_. INVALID_POSITION) ht)"
  by (auto simp: ht_ok_def)

lemma SetBuffer_ok:
  assumes ok: "dict_ok d"
  shows "\<exists>d'. SetBuffer d b = Some d' \<and> dict_ok d' \<and> buffer d' = b \<and>
           absolutePosition d' = 0 \<and> bufferBase d' = 0 \<and>
           int (length (hashTable d')) = HASH_TABLE_SIZE \<and>
           int (length (children d')) = CHILD_COUNT"
proof -
  define m where "m = (if int (length b) > TAIL_LENGTH + MIN_MATCH_LENGTH
                       then int (length b) - (TAIL_LENGTH + MIN_MATCH_LENGTH) else 0)"
  define ht where "ht = (if hashTable d = [] then replicate (nat HASH_TABLE_SIZE) 0 else hashTable d)"
  define ch where "ch = (if hashTable d = [] then replicate (nat CHILD_COUNT) 0 else children d)"
  have l: "int (length ht) = HASH_TABLE_SIZE" "int (length ch) = CHILD_COUNT"
    using ok by (auto simp: dict_ok_def ht_def ch_def HASH_TABLE_SIZE_def CC_val DICTIONARY_SIZE_def)
  define d' where "d' = d\<lparr>buffer := b, bufferBase := 0, matchableBufferLength := m,
      absolutePosition := 0, hashTable := map (\<lambda>_. INVALID_POSITION) ht, children := ch\<rparr>"
  have e: "SetBuffer d b = Some d'"
  proof (cases "hashTable d = []")
    case True
    have "int (length (replicate (nat HASH_TABLE_SIZE) (0 :: int))) = HASH_TABLE_SIZE"
      by (simp add: HASH_TABLE_SIZE_def)
    from update_first_all [OF this, of "\<lambda>_. INVALID_POSITION"]
    have "update_first (\<lambda>_. INVALID_POSITION) (replicate (nat HASH_TABLE_SIZE) 0) 0 HASH_TABLE_SIZE
       = Some (replicate (nat HASH_TABLE_SIZE) INVALID_POSITION)"
      by simp
    thus ?thesis using True
      by (simp add: SetBuffer_def Let_def Dictionary_initialize_def d'_def m_def ht_def ch_def)
  next
    case False
    have "int (length (hashTable d)) = HASH_TABLE_SIZE"
      using l(1) False by (simp add: ht_def)
    from update_first_all [OF this, of "\<lambda>_. INVALID_POSITION"]
    have "update_first (\<lambda>_. INVALID_POSITION) (hashTable d) 0 HASH_TABLE_SIZE
       = Some (map (\<lambda>_. INVALID_POSITION) (hashTable d))" .
    thus ?thesis using False
      by (simp add: SetBuffer_def Let_def Dictionary_initialize_def d'_def m_def ht_def ch_def)
  qed
  have m0: "0 \<le> m" "m = max 0 (int (length b) - (TAIL_LENGTH + MIN_MATCH_LENGTH))"
    by (simp_all add: m_def)
  have np: "next_position d' = 0" using m0(1) by (simp add: next_position_def d'_def)
  have "dict_ok d'"
    unfolding dict_ok_def np using l m0 ch_ok_before ht_ok_cleared
    by (simp add: d'_def)
  thus ?thesis using e l by (simp add: d'_def)
qed

lemma dict_ok_zero: "dict_ok Dictionary0"
  by (auto simp: dict_ok_def Dictionary0_def next_position_def ht_ok_def ch_ok_def
      TAIL_LENGTH_def WORD_SIZE_def MIN_MATCH_LENGTH_def)

text \<open>
  The dictionaries a program can hold: the zero value, and what \<open>SetBuffer\<close>,
  \<open>FindMatches\<close> and \<open>Skip\<close> make of one of them when they return.
\<close>

inductive reachable :: "Dictionary \<Rightarrow> bool" where
  zero: "reachable Dictionary0"
| set: "reachable d \<Longrightarrow> SetBuffer d b = Some d' \<Longrightarrow> reachable d'"
| find: "reachable d \<Longrightarrow> FindMatches d out = Some (d', out', n) \<Longrightarrow> reachable d'"
| skip: "reachable d \<Longrightarrow> Skip d = Some d' \<Longrightarrow> reachable d'"

lemma reachable_dict_ok: "reachable d \<Longrightarrow> dict_ok d"
proof (induction rule: reachable.induct)
  case zero
  show ?case by (rule dict_ok_zero)
next
  case (set d b d')
  thus ?case using SetBuffer_ok [of d b] by auto
next
  case (find d out d' out' n)
  thus ?case using FindMatches_ok [of d out] by simp
next
  case (skip d d')
  then obtain r where "FindMatches d None = Some r" "d' = fst r"
    by (auto simp: Skip_def)
  thus ?case using FindMatches_ok [OF skip.IH, of None] by (cases r) simp
qed

lemma Skip_ok:
  assumes "dict_ok d"
  shows "\<exists>d'. Skip d = Some d' \<and> dict_ok d' \<and> buffer d' = buffer d \<and>
           absolutePosition d' = absolutePosition d + 1"
  using FindMatches_ok [OF assms, of None]
  by (cases "FindMatches d None") (auto simp: Skip_def)

subsection \<open>A run of the dictionary on a small buffer\<close>

text \<open>
  On the 18 bytes of \<open>ex_buf\<close> the three-byte strings at positions 0, 1, 5 and 6 are
  equal (hash bucket 834882). \<open>ex_dict k\<close> is the dictionary after \<open>SetBuffer\<close> on the zero
  value and \<open>k\<close> calls of \<open>Skip\<close>, with the table updates in the order the code makes
  them.
\<close>

definition ex_buf :: "byte list" where
  "ex_buf = [1,1,1,1,2,1,1,1,1,0,0,0,0,0,0,0,0,0]"

definition ex_state :: "int \<Rightarrow> int list \<Rightarrow> int list \<Rightarrow> Dictionary" where
  "ex_state a ht ch =
     \<lparr>buffer = ex_buf, bufferBase = 0, matchableBufferLength = 7, absolutePosition = a,
      hashTable = ht, children = ch\<rparr>"

definition ex_ht :: "int list" where
  "ex_ht = replicate (nat HASH_TABLE_SIZE) INVALID_POSITION"

definition ex_ch :: "int list" where
  "ex_ch = replicate (nat CHILD_COUNT) 0"

definition ex_ch5 :: "int list" where
  "ex_ch5 = ex_ch[0 := - 1, 1 := - 1, 2 := 0, 1 := - 1, 3 := - 1, 4 := - 1, 5 := - 1,
                  6 := - 1, 7 := - 1, 8 := - 1, 9 := - 1]"

definition ex_ht5 :: "int list" where
  "ex_ht5 = ex_ht[834882 := 1, 834479 := 2, 998097 := 3, 779639 := 4]"

definition ex_d0 :: Dictionary where
  "ex_d0 = ex_state 0 ex_ht ex_ch"

definition ex_d1 :: Dictionary where
  "ex_d1 = ex_state 1 (ex_ht[834882 := 0]) (ex_ch[0 := - 1, 1 := - 1])"

definition ex_d2 :: Dictionary where
  "ex_d2 = ex_state 2 (ex_ht[834882 := 1]) (ex_ch[0 := - 1, 1 := - 1, 2 := 0, 1 := - 1, 3 := - 1])"

definition ex_d3 :: Dictionary where
  "ex_d3 = ex_state 3 (ex_ht[834882 := 1, 834479 := 2])
     (ex_ch[0 := - 1, 1 := - 1, 2 := 0, 1 := - 1, 3 := - 1, 4 := - 1, 5 := - 1])"

definition ex_d4 :: Dictionary where
  "ex_d4 = ex_state 4 (ex_ht[834882 := 1, 834479 := 2, 998097 := 3])
     (ex_ch[0 := - 1, 1 := - 1, 2 := 0, 1 := - 1, 3 := - 1, 4 := - 1, 5 := - 1,
            6 := - 1, 7 := - 1])"

definition ex_d5 :: Dictionary where
  "ex_d5 = ex_state 5 ex_ht5 ex_ch5"

definition ex_ch6 :: "int list" where
  "ex_ch6 = ex_ch5[11 := 1, 2 := 0, 10 := - 1, 0 := - 1]"

definition ex_d6 :: Dictionary where
  "ex_d6 = ex_state 6 (ex_ht5[834882 := 5]) ex_ch6"

definition ex_d7 :: Dictionary where
  "ex_d7 = ex_state 7 (ex_ht5[834882 := 6]) (ex_ch6[13 := 5, 12 := - 1, 10 := - 1])"

definition ex_out :: "Match list" where
  "ex_out = replicate 128 \<lparr>Length = 0, Offset = 0\<rparr>"

lemma ex_hash:
  "hash ex_buf 0 = Some 17732655626415029570"
  "hash ex_buf 1 = Some 17732655626415029570"
  "hash ex_buf 2 = Some 17732655626398251951"
  "hash ex_buf 3 = Some 17732937114947893969"
  "hash ex_buf 4 = Some 306282839404176759"
  "hash ex_buf 5 = Some 17732655626415029570"
  "hash ex_buf 6 = Some 17732655626415029570"
  unfolding ex_buf_def by code_simp+

lemma ex_bucket:
  "uint ((17732655626415029570 :: uint) mod word_of_int HASH_TABLE_SIZE) = 834882"
  "uint ((17732655626398251951 :: uint) mod word_of_int HASH_TABLE_SIZE) = 834479"
  "uint ((17732937114947893969 :: uint) mod word_of_int HASH_TABLE_SIZE) = 998097"
  "uint ((306282839404176759 :: uint) mod word_of_int HASH_TABLE_SIZE) = 779639"
  by code_simp+

lemma ex_consts:
  "nat HASH_TABLE_SIZE = 1048576" "nat CHILD_COUNT = 4194304"
  "DICTIONARY_SIZE = 2097152" "REBASE_THRESHOLD = 9223372036852678656"
  "TAIL_LENGTH = 8" "MAX_MATCH_LENGTH = 258" "MIN_MATCH_LENGTH = 3"
  "INVALID_POSITION = - 1" "MAX_MATCH_CANDIDATE_COUNT = 128" "length ex_buf = 18"
  by (simp_all add: HASH_TABLE_SIZE_def CHILD_COUNT_def DICTIONARY_SIZE_def RT_val
      TAIL_LENGTH_def WORD_SIZE_def MAX_MATCH_LENGTH_def MIN_MATCH_LENGTH_def
      INVALID_POSITION_def MAX_MATCH_CANDIDATE_COUNT_def ex_buf_def)

lemma ex_len: "length ex_ht = 1048576" "length ex_ch = 4194304"
  by (simp_all add: ex_ht_def ex_ch_def ex_consts)

lemma ex_ne: "ex_ht \<noteq> []" "ex_ch \<noteq> []"
  by (simp_all add: ex_ht_def ex_ch_def ex_consts)

lemma ex_nth: "i < 1048576 \<Longrightarrow> ex_ht ! i = - 1" "i < 4194304 \<Longrightarrow> ex_ch ! i = 0"
  by (simp_all add: ex_ht_def ex_ch_def ex_consts)

lemma ex_at [simp]: "at ex_buf i = (if 0 \<le> i \<and> i < 18 then Some (ex_buf ! nat i) else None)"
  by (simp add: at_def ex_consts)

lemma ex_buf_nth:
  "ex_buf ! 0 = 1" "ex_buf ! Suc 0 = 1" "ex_buf ! 1 = 1" "ex_buf ! 2 = 1" "ex_buf ! 3 = 1" "ex_buf ! 4 = 2"
  "ex_buf ! 5 = 1" "ex_buf ! 6 = 1" "ex_buf ! 7 = 1" "ex_buf ! 8 = 1" "ex_buf ! 9 = 0"
  by (simp_all add: ex_buf_def)

lemma ex_SetBuffer: "SetBuffer Dictionary0 ex_buf = Some ex_d0"
proof -
  have "int (length (replicate (nat HASH_TABLE_SIZE) (0 :: int))) = HASH_TABLE_SIZE"
    by (simp add: HASH_TABLE_SIZE_def)
  from update_first_all [OF this, of "\<lambda>_. INVALID_POSITION"]
  show ?thesis
    by (simp add: SetBuffer_def Let_def Dictionary_initialize_def Dictionary0_def
        ex_d0_def ex_state_def ex_ht_def ex_ch_def ex_consts)
qed

lemmas ex_unfold = FindMatches_def computeRelativePosition_def Let_def ex_state_def ex_hash
  ex_bucket ex_consts ex_len ex_ne ex_nth at_def put_def go_mod_def find_step_def finish_tree_def
  add_candidate_def delete_node_def descend_def ex_buf_nth

lemma ex_Skip_0: "FindMatches ex_d0 None = Some (ex_d1, None, 0)"
  unfolding ex_d0_def ex_d1_def
  apply (simp add: ex_unfold)
  apply (subst find_loop.simps)
  apply (simp add: ex_unfold)
  done

lemma ex_Skip_1: "FindMatches ex_d1 None = Some (ex_d2, None, 0)"
  unfolding ex_d1_def ex_d2_def
  apply (simp add: ex_unfold)
  apply (subst find_loop.simps)
  apply (simp add: ex_unfold match_extend.simps)
  apply (subst find_loop.simps)
  apply (simp add: ex_unfold)
  done

lemma ex_Skip_2: "FindMatches ex_d2 None = Some (ex_d3, None, 0)"
  unfolding ex_d2_def ex_d3_def
  apply (simp add: ex_unfold)
  apply (subst find_loop.simps)
  apply (simp add: ex_unfold)
  done

lemma ex_Skip_3: "FindMatches ex_d3 None = Some (ex_d4, None, 0)"
  unfolding ex_d3_def ex_d4_def
  apply (simp add: ex_unfold)
  apply (subst find_loop.simps)
  apply (simp add: ex_unfold)
  done

lemma ex_Skip_4: "FindMatches ex_d4 None = Some (ex_d5, None, 0)"
  unfolding ex_d4_def ex_d5_def ex_ht5_def ex_ch5_def
  apply (simp add: ex_unfold)
  apply (subst find_loop.simps)
  apply (simp add: ex_unfold)
  done

lemma ex_Skip_5: "FindMatches ex_d5 None = Some (ex_d6, None, 0)"
  unfolding ex_d5_def ex_d6_def ex_ht5_def ex_ch5_def ex_ch6_def
  apply (simp add: ex_unfold)
  apply (subst find_loop.simps)
  apply (simp add: ex_unfold match_extend.simps)
  apply (subst find_loop.simps)
  apply (simp add: ex_unfold match_extend.simps)
  apply (subst find_loop.simps)
  apply (simp add: ex_unfold)
  done

lemma ex_FindMatches_5:
  "FindMatches ex_d5 (Some ex_out) =
     Some (ex_d6, Some (ex_out[0 := \<lparr>Length = 3, Offset = 4\<rparr>, 1 := \<lparr>Length = 4, Offset = 5\<rparr>]), 2)"
  unfolding ex_d5_def ex_d6_def ex_ht5_def ex_ch5_def ex_ch6_def ex_out_def
  apply (simp add: ex_unfold)
  apply (subst find_loop.simps)
  apply (simp add: ex_unfold match_extend.simps)
  apply (subst find_loop.simps)
  apply (simp add: ex_unfold match_extend.simps)
  apply (subst find_loop.simps)
  apply (simp add: ex_unfold)
  done

lemma ex_FindMatches_5_short:
  "FindMatches ex_d5 (Some [\<lparr>Length = 0, Offset = 0\<rparr>]) = None"
  unfolding ex_d5_def ex_ht5_def ex_ch5_def
  apply (simp add: ex_unfold)
  apply (subst find_loop.simps)
  apply (simp add: ex_unfold match_extend.simps)
  apply (subst find_loop.simps)
  apply (simp add: ex_unfold match_extend.simps)
  done

lemma ex_Skip_6: "FindMatches ex_d6 None = Some (ex_d7, None, 0)"
  unfolding ex_d6_def ex_d7_def ex_ht5_def ex_ch5_def ex_ch6_def
  apply (simp add: ex_unfold)
  apply (subst find_loop.simps)
  apply (simp add: ex_unfold match_extend.simps)
  apply (subst find_loop.simps)
  apply (simp add: ex_unfold)
  done

lemma ex_Skip:
  "Skip ex_d0 = Some ex_d1" "Skip ex_d1 = Some ex_d2" "Skip ex_d2 = Some ex_d3"
  "Skip ex_d3 = Some ex_d4" "Skip ex_d4 = Some ex_d5" "Skip ex_d5 = Some ex_d6"
  "Skip ex_d6 = Some ex_d7"
  by (simp_all add: Skip_def ex_Skip_0 ex_Skip_1 ex_Skip_2 ex_Skip_3 ex_Skip_4 ex_Skip_5
      ex_Skip_6)

lemma ex_reachable:
  "reachable ex_d0" "reachable ex_d1" "reachable ex_d2" "reachable ex_d3" "reachable ex_d4"
  "reachable ex_d5" "reachable ex_d6" "reachable ex_d7"
proof -
  show r0: "reachable ex_d0" using reachable.set [OF reachable.zero ex_SetBuffer] .
  show r1: "reachable ex_d1" using reachable.skip [OF r0 ex_Skip(1)] .
  show r2: "reachable ex_d2" using reachable.skip [OF r1 ex_Skip(2)] .
  show r3: "reachable ex_d3" using reachable.skip [OF r2 ex_Skip(3)] .
  show r4: "reachable ex_d4" using reachable.skip [OF r3 ex_Skip(4)] .
  show r5: "reachable ex_d5" using reachable.skip [OF r4 ex_Skip(5)] .
  show r6: "reachable ex_d6" using reachable.skip [OF r5 ex_Skip(6)] .
  show "reachable ex_d7" using reachable.skip [OF r6 ex_Skip(7)] .
qed

lemma ex_d7_slot: "children ex_d7 ! 13 = 5" "int (length (children ex_d7)) = 4194304"
  by (simp_all add: ex_d7_def ex_state_def ex_ch6_def ex_ch5_def ex_len)

text \<open>
  The same dictionary is now given the buffer again: \<open>SetBuffer\<close> clears the hash table
  and leaves the child slots as they are (\<open>ex_e0\<close>); one more \<open>Skip\<close> inserts position 0
  (\<open>ex_e1\<close>).
\<close>

definition ex_e0 :: Dictionary where
  "ex_e0 = ex_state 0 ex_ht (ex_ch6[13 := 5, 12 := - 1, 10 := - 1])"

definition ex_e1 :: Dictionary where
  "ex_e1 = ex_state 1 (ex_ht[834882 := 0])
             (ex_ch6[13 := 5, 12 := - 1, 10 := - 1, 0 := - 1, 1 := - 1])"

lemma ex_SetBuffer_again: "SetBuffer ex_d7 ex_buf = Some ex_e0"
proof -
  have "int (length (ex_ht5[834882 := 6])) = HASH_TABLE_SIZE"
    by (simp add: ex_ht5_def ex_len HASH_TABLE_SIZE_def)
  from update_first_all [OF this, of "\<lambda>_. INVALID_POSITION"]
  show ?thesis
    by (simp add: SetBuffer_def Let_def ex_d7_def ex_e0_def ex_state_def ex_consts ex_ht5_def
        ex_ne ex_len ex_ht_def map_replicate_const)
qed

lemma ex_Skip_again: "FindMatches ex_e0 None = Some (ex_e1, None, 0)"
  unfolding ex_e0_def ex_e1_def ex_ch5_def ex_ch6_def
  apply (simp add: ex_unfold)
  apply (subst find_loop.simps)
  apply (simp add: ex_unfold)
  done

lemma ex_again_reachable: "reachable ex_e0" "reachable ex_e1"
proof -
  show r: "reachable ex_e0" using reachable.set [OF ex_reachable(8) ex_SetBuffer_again] .
  show "reachable ex_e1" using reachable.find [OF r ex_Skip_again] .
qed

lemma ex_again_slot:
  "children ex_e0 ! 13 = 5" "13 < length (children ex_e0)"
  "children ex_e1 ! 13 = 5" "13 < length (children ex_e1)"
  by (simp_all add: ex_e0_def ex_e1_def ex_state_def ex_ch6_def ex_ch5_def ex_len)

lemma ex_out_length: "int (length ex_out) = MAX_MATCH_CANDIDATE_COUNT"
  by (simp add: ex_out_def MAX_MATCH_CANDIDATE_COUNT_def)

lemma ex_out_found:
  "take 2 (ex_out[0 := \<lparr>Length = 3, Offset = 4\<rparr>, 1 := \<lparr>Length = 4, Offset = 5\<rparr>])
     = [\<lparr>Length = 3, Offset = 4\<rparr>, \<lparr>Length = 4, Offset = 5\<rparr>]"
  unfolding ex_out_def by code_simp

section \<open>The claims about the dictionary\<close>

text \<open>
  Claim C8 as stated covers every non-nil output array. \<open>FindMatches\<close> writes
  \<open>matchCandidates[matchCandidateCount]\<close> without looking at the length of the array, so a
  call that finds more candidates than the array holds panics: on the dictionary \<open>ex_d5\<close>,
  where the call finds two candidates, an array of one entry is too short.
\<close>

theorem FindMatches_short_output_counterexample:
  "reachable ex_d5 \<and> FindMatches ex_d5 (Some [\<lparr>Length = 0, Offset = 0\<rparr>]) = None"
  using ex_reachable(6) ex_FindMatches_5_short by simp

text \<open>
  Claim C8, amended. For every dictionary that \<open>SetBuffer\<close>, \<open>FindMatches\<close> and \<open>Skip\<close> can
  produce from the zero value, a call of \<open>FindMatches\<close> with an output array of at least
  \<open>MAX_MATCH_CANDIDATE_COUNT\<close> entries returns: it gives back the array, of unchanged length,
  and a count \<open>n\<close> within it such that the first \<open>n\<close> entries have strictly increasing
  lengths, every length within \<open>MIN_MATCH_LENGTH\<close> and \<open>MAX_MATCH_LENGTH\<close> and every offset
  within 1 and \<open>DICTIONARY_SIZE\<close>.
\<close>

theorem FindMatches_candidates_sorted:
  assumes "reachable d" and "MAX_MATCH_CANDIDATE_COUNT \<le> int (length out)"
  shows "\<exists>d' cs n. FindMatches d (Some out) = Some (d', Some cs, n) \<and>
           length cs = length out \<and> 0 \<le> n \<and> n \<le> int (length cs) \<and>
           sorted_wrt (\<lambda>a b. Length a < Length b) (take (nat n) cs) \<and>
           (\<forall>m \<in> set (take (nat n) cs).
              MIN_MATCH_LENGTH \<le> Length m \<and> Length m \<le> MAX_MATCH_LENGTH \<and>
              1 \<le> Offset m \<and> Offset m \<le> DICTIONARY_SIZE)"
proof -
  note f = FindMatches_ok [OF reachable_dict_ok [OF assms(1)], of "Some out"]
  show ?thesis
  proof (cases "FindMatches d (Some out)")
    case None
    thus ?thesis using f assms(2) by simp
  next
    case (Some r)
    obtain d' out' n where r: "r = (d', out', n)" by (cases r)
    have p: "map_option length out' = Some (length out)" "found_ok out' n"
      using f Some r by simp_all
    then obtain cs where cs: "out' = Some cs" "length cs = length out" by auto
    have "0 \<le> n" "n \<le> int (length cs)" "cands_ok MAX_MATCH_LENGTH (take (nat n) cs)"
      using p(2) cs by (simp_all add: found_ok_def)
    thus ?thesis unfolding Some r using cs by (fastforce simp: cands_ok_def)
  qed
qed

theorem FindMatches_candidates_sorted_witness:
  "reachable ex_d5 \<and> MAX_MATCH_CANDIDATE_COUNT \<le> int (length ex_out) \<and>
   FindMatches ex_d5 (Some ex_out) =
     Some (ex_d6, Some (ex_out[0 := \<lparr>Length = 3, Offset = 4\<rparr>, 1 := \<lparr>Length = 4, Offset = 5\<rparr>]), 2) \<and>
   take 2 (ex_out[0 := \<lparr>Length = 3, Offset = 4\<rparr>, 1 := \<lparr>Length = 4, Offset = 5\<rparr>])
     = [\<lparr>Length = 3, Offset = 4\<rparr>, \<lparr>Length = 4, Offset = 5\<rparr>] \<and>
   sorted_wrt (\<lambda>a b. Length a < Length b)
     (take (nat 2) (ex_out[0 := \<lparr>Length = 3, Offset = 4\<rparr>, 1 := \<lparr>Length = 4, Offset = 5\<rparr>]))"
  using FindMatches_candidates_sorted [OF ex_reachable(6), of ex_out]
    ex_reachable(6) ex_out_found ex_out_length
  by (simp add: ex_FindMatches_5)

text \<open>
  Claim C3, as the specification words it: with \<open>currentRelative\<close> the relative position
  \<open>absolutePosition - bufferBase\<close>, every entry of the two tables is unset or lies in the
  window that ends at \<open>currentRelative\<close>.
\<close>

definition currentRelative :: "Dictionary \<Rightarrow> int" where
  "currentRelative d = absolutePosition d - bufferBase d"

definition in_window :: "Dictionary \<Rightarrow> int \<Rightarrow> bool" where
  "in_window d p \<longleftrightarrow>
     max 0 (currentRelative d - DICTIONARY_SIZE + 1) \<le> p \<and> p < currentRelative d + 1"

definition window_invariant :: "Dictionary \<Rightarrow> bool" where
  "window_invariant d \<longleftrightarrow>
     (\<forall>v \<in> set (hashTable d) \<union> set (children d). v = INVALID_POSITION \<or> in_window d v)"

text \<open>
  Claim C3 does not hold for a dictionary that is used a second time. \<open>SetBuffer\<close> on the
  zero value with the 18 bytes of \<open>ex_buf\<close> and seven calls of \<open>Skip\<close> leave position 5
  in child slot 13. After \<open>SetBuffer\<close> with the same bytes again the dictionary is at
  relative position 0, and after one more \<open>Skip\<close> at relative position 1; both times slot
  13 still holds 5, which is not below \<open>currentRelative + 1\<close>.
\<close>

theorem window_invariant_counterexample:
  "reachable ex_e0 \<and> currentRelative ex_e0 = 0 \<and> children ex_e0 ! 13 = 5 \<and>
   \<not> in_window ex_e0 5 \<and> \<not> window_invariant ex_e0 \<and>
   reachable ex_e1 \<and> currentRelative ex_e1 = 1 \<and> children ex_e1 ! 13 = 5 \<and>
   \<not> in_window ex_e1 5 \<and> \<not> window_invariant ex_e1"
proof -
  have c: "currentRelative ex_e0 = 0" "currentRelative ex_e1 = 1"
    by (simp_all add: currentRelative_def ex_e0_def ex_e1_def ex_state_def)
  have w: "\<not> in_window ex_e0 5" "\<not> in_window ex_e1 5" by (simp_all add: in_window_def c)
  have m: "5 \<in> set (children ex_e0)" "5 \<in> set (children ex_e1)"
    using nth_mem [OF ex_again_slot(2)] nth_mem [OF ex_again_slot(4)]
    by (simp_all add: ex_again_slot)
  have "\<not> window_invariant ex_e0"
    using w(1) m(1) unfolding window_invariant_def INVALID_POSITION_def
    by (intro notI) (drule bspec [of _ _ 5], auto)
  moreover have "\<not> window_invariant ex_e1"
    using w(2) m(2) unfolding window_invariant_def INVALID_POSITION_def
    by (intro notI) (drule bspec [of _ _ 5], auto)
  ultimately show ?thesis using ex_again_reachable c ex_again_slot(1,3) w by simp
qed

text \<open>
  Claim C3, amended. Let \<open>next_position\<close> be the relative position that the next searching
  call inserts. For every dictionary that \<open>SetBuffer\<close>, \<open>FindMatches\<close> and \<open>Skip\<close> can
  produce from the zero value: every hash table entry is unset or a position from 0 up to
  \<open>next_position - 1\<close>; and a child slot \<open>j\<close> whose node, the latest position
  \<open>owner (next_position - 1) j\<close> that uses the slot, has been inserted since \<open>SetBuffer\<close>,
  is unset or holds a position from 0 up to that node's position minus 1. All of these lie
  below \<open>currentRelative + 1\<close>. Nothing is said of a lower end of the window, nor of the
  slots of nodes not yet inserted.
\<close>

theorem dictionary_entries_bounded:
  assumes "reachable d"
  shows "(\<forall>v \<in> set (hashTable d).
            v = INVALID_POSITION \<or> (0 \<le> v \<and> v < next_position d)) \<and>
         (\<forall>j. 0 \<le> j \<and> j < int (length (children d)) \<and> 0 \<le> owner (next_position d - 1) j \<longrightarrow>
            children d ! nat j = INVALID_POSITION \<or>
            (0 \<le> children d ! nat j \<and> children d ! nat j < owner (next_position d - 1) j)) \<and>
         (\<forall>j. owner (next_position d - 1) j < next_position d) \<and>
         next_position d \<le> currentRelative d"
proof -
  have ok: "dict_ok d" using assms by (rule reachable_dict_ok)
  have "\<forall>v \<in> set (hashTable d). v = INVALID_POSITION \<or> (0 \<le> v \<and> v < next_position d)"
    using ok by (simp add: dict_ok_def ht_ok_def)
  moreover have "\<forall>j. 0 \<le> j \<and> j < int (length (children d)) \<and> 0 \<le> owner (next_position d - 1) j \<longrightarrow>
            children d ! nat j = INVALID_POSITION \<or>
            (0 \<le> children d ! nat j \<and> children d ! nat j < owner (next_position d - 1) j)"
    using ok by (simp add: dict_ok_def ch_ok_def slot_ok_def)
  moreover have "owner (next_position d - 1) j < next_position d" for j
    using owner_le [of "next_position d - 1" j] by simp
  moreover have "next_position d \<le> currentRelative d"
    by (simp add: next_position_def currentRelative_def)
  ultimately show ?thesis by blast
qed

theorem dictionary_entries_bounded_witness:
  "reachable ex_d7 \<and> next_position ex_d7 = 7 \<and> owner 6 13 = 6 \<and> children ex_d7 ! 13 = 5 \<and>
   (children ex_d7 ! nat 13 = INVALID_POSITION \<or>
    (0 \<le> children ex_d7 ! nat 13 \<and> children ex_d7 ! nat 13 < owner (next_position ex_d7 - 1) 13))"
proof -
  have n: "next_position ex_d7 = 7"
    by (simp add: next_position_def ex_d7_def ex_state_def)
  have o: "owner 6 13 = 6" by (simp add: owner_def DICTIONARY_SIZE_def)
  have l: "(0 :: int) \<le> 13 \<and> 13 < int (length (children ex_d7)) \<and> 0 \<le> owner (next_position ex_d7 - 1) 13"
    by (simp add: n o ex_d7_slot(2))
  from dictionary_entries_bounded [OF ex_reachable(8)] l
  have "children ex_d7 ! nat 13 = INVALID_POSITION \<or>
    (0 \<le> children ex_d7 ! nat 13 \<and> children ex_d7 ! nat 13 < owner (next_position ex_d7 - 1) 13)"
    by blast
  thus ?thesis using ex_reachable(8) n o ex_d7_slot(1) by simp
qed

section \<open>The compressor returns\<close>

lemma FastWrite_ok:
  assumes "0 \<le> off" "off + 4 \<le> int (length dst)" "1 \<le> sz" "sz \<le> 4"
  shows "\<exists>ob. FastWrite dst off w sz = Some ob \<and> length ob = length dst"
proof -
  have "sz = 1 \<or> sz = 2 \<or> sz = 3 \<or> sz = 4" using assms(3,4) by auto
  thus ?thesis using assms(1,2)
    by (auto simp: FastWrite_def write_le_def put_def)
qed

lemma matchCode_size: "1 \<le> snd (matchCode m) \<and> snd (matchCode m) \<le> 4"
  by (simp add: matchCode_def Let_def)

lemma encodeMatch_ok:
  assumes "0 \<le> off" "off + 4 \<le> int (length dst)"
  shows "\<exists>ob sz. encodeMatch m (Some (dst, off)) = Some (Some ob, sz) \<and> length ob = length dst
           \<and> 1 \<le> sz \<and> sz \<le> 4"
proof -
  obtain w sz where c: "matchCode m = (w, sz)" by (cases "matchCode m")
  have s: "1 \<le> sz" "sz \<le> 4" using matchCode_size [of m] c by simp_all
  obtain ob where "FastWrite dst off w sz = Some ob" "length ob = length dst"
    using FastWrite_ok [OF assms s] by blast
  thus ?thesis using c s by (simp add: encodeMatch_def)
qed

lemma flush_control_word_ok:
  assumes "0 \<le> controlWordPointer st" "controlWordPointer st + 4 \<le> int (length (outputBuffer' st))"
  shows "\<exists>st'. flush_control_word st = Some st' \<and> dict' st' = dict' st \<and>
           length (outputBuffer' st') = length (outputBuffer' st) \<and>
           matchCandidates' st' = matchCandidates' st \<and> nextMatch st' = nextMatch st \<and>
           (if controlWordBit st = controlWordBitCount
            then controlWordBit st' = 0 \<and> controlWordPointer st' = outputIterator' st \<and>
                 outputIterator' st' = outputIterator' st + WORD_SIZE
            else controlWordBit st' = controlWordBit st \<and>
                 controlWordPointer st' = controlWordPointer st \<and>
                 outputIterator' st' = outputIterator' st)"
proof (cases "controlWordBit st = controlWordBitCount")
  case True
  obtain ob where "FastWrite (outputBuffer' st) (controlWordPointer st) (controlWord' st) WORD_SIZE = Some ob"
      "length ob = length (outputBuffer' st)"
    using FastWrite_ok [OF assms, of WORD_SIZE] by (auto simp: WORD_SIZE_def)
  thus ?thesis using True by (simp add: flush_control_word_def)
next
  case False
  thus ?thesis by (simp add: flush_control_word_def)
qed

lemma slice_to_ok: "0 \<le> n \<Longrightarrow> n \<le> int (length xs) \<Longrightarrow> \<exists>ys. slice_to xs n = Some ys"
  by (simp add: slice_to_def)

lemma find_next_ok:
  assumes r: "reachable (dict' st)"
    and l: "int (length (matchCandidates' st)) = MAX_MATCH_CANDIDATE_COUNT"
  shows "\<exists>st'. find_next st = Some st' \<and> reachable (dict' st') \<and>
           buffer (dict' st') = buffer (dict' st) \<and>
           absolutePosition (dict' st') = absolutePosition (dict' st) + 1 \<and>
           length (matchCandidates' st') = length (matchCandidates' st) \<and>
           outputBuffer' st' = outputBuffer' st \<and> outputIterator' st' = outputIterator' st \<and>
           controlWord' st' = controlWord' st \<and> controlWordBit st' = controlWordBit st \<and>
           controlWordPointer st' = controlWordPointer st"
proof -
  note f = FindMatches_ok [OF reachable_dict_ok [OF r], of "Some (matchCandidates' st)"]
  show ?thesis
  proof (cases "FindMatches (dict' st) (Some (matchCandidates' st))")
    case None
    thus ?thesis using f l by simp
  next
    case (Some res)
    obtain d out n where res: "res = (d, out, n)" by (cases res)
    have p: "dict_ok d" "buffer d = buffer (dict' st)"
        "absolutePosition d = absolutePosition (dict' st) + 1"
        "map_option length out = Some (length (matchCandidates' st))" "found_ok out n"
      using f Some res by simp_all
    obtain cs where cs: "out = Some cs" "length cs = length (matchCandidates' st)"
      using p(4) by auto
    have "0 \<le> n" "n \<le> int (length cs)" using p(5) cs by (simp_all add: found_ok_def)
    then obtain best where b: "slice_to cs n = Some best" using slice_to_ok by blast
    have rd: "reachable d" using reachable.find [OF r] Some res by blast
    show ?thesis using Some res cs b rd p by (simp add: find_next_def)
  qed
qed

lemma skip_loop_ok:
  assumes "reachable d"
  shows "\<exists>d'. skip_loop d i n = Some d' \<and> reachable d' \<and> buffer d' = buffer d \<and>
           absolutePosition d \<le> absolutePosition d'"
  using assms
proof (induction d i n rule: skip_loop.induct)
  case (1 d i n)
  show ?case
  proof (cases "i < n")
    case False
    thus ?thesis using "1.prems" by (subst skip_loop.simps) simp
  next
    case True
    obtain d1 where s: "Skip d = Some d1" and b: "buffer d1 = buffer d"
        and a: "absolutePosition d1 = absolutePosition d + 1"
      using Skip_ok [OF reachable_dict_ok [OF "1.prems"]] by blast
    have r1: "reachable d1" using reachable.skip [OF "1.prems" s] .
    obtain d' where "skip_loop d1 (i + 1) n = Some d'" "reachable d'" "buffer d' = buffer d1"
        "absolutePosition d1 \<le> absolutePosition d'"
      using "1.IH" [OF True s r1] by blast
    thus ?thesis using True s a b by (subst skip_loop.simps) simp
  qed
qed

lemma emit_literal_ok:
  assumes "0 \<le> Position (dict' st) - 2" "Position (dict' st) - 2 < int (length source)"
    "0 \<le> outputIterator' st" "outputIterator' st + 4 \<le> int (length (outputBuffer' st))"
  shows "\<exists>st'. emit_literal source st = Some st' \<and> dict' st' = dict' st \<and>
           length (outputBuffer' st') = length (outputBuffer' st) \<and>
           outputIterator' st' = outputIterator' st + 1 \<and>
           matchCandidates' st' = matchCandidates' st \<and>
           controlWordBit st' = controlWordBit st \<and>
           controlWordPointer st' = controlWordPointer st"
proof -
  obtain b where b: "at source (Position (dict' st) - 2) = Some b"
    using assms(1,2) by (simp add: at_def)
  obtain ob where "FastWrite (outputBuffer' st) (outputIterator' st) (ucast b) 1 = Some ob"
      "length ob = length (outputBuffer' st)"
    using FastWrite_ok [OF assms(3,4), of 1] by auto
  thus ?thesis using b by (simp add: emit_literal_def)
qed

lemma emit_match_ok:
  assumes r: "reachable (dict' st)"
    and l: "int (length (matchCandidates' st)) = MAX_MATCH_CANDIDATE_COUNT"
    and o: "0 \<le> outputIterator' st" "outputIterator' st + 4 \<le> int (length (outputBuffer' st))"
    and b: "0 \<le> controlWordBit st"
  shows "\<exists>st'. emit_match st m = Some st' \<and> reachable (dict' st') \<and>
           buffer (dict' st') = buffer (dict' st) \<and>
           absolutePosition (dict' st) < absolutePosition (dict' st') \<and>
           length (matchCandidates' st') = length (matchCandidates' st) \<and>
           length (outputBuffer' st') = length (outputBuffer' st) \<and>
           outputIterator' st < outputIterator' st' \<and>
           outputIterator' st' \<le> outputIterator' st + 4 \<and>
           controlWordBit st' = controlWordBit st \<and>
           controlWordPointer st' = controlWordPointer st"
proof -
  define bit :: uint where "bit = push_bit (nat (controlWordBit st)) 1"
  define s1 where "s1 = st\<lparr>controlWord' := controlWord' st OR bit\<rparr>"
  obtain ob sz where e: "encodeMatch m (Some (outputBuffer' st, outputIterator' st)) = Some (Some ob, sz)"
      and ob: "length ob = length (outputBuffer' st)" and sz: "1 \<le> sz" "sz \<le> 4"
    using encodeMatch_ok [OF o] by blast
  define s2 where "s2 = s1\<lparr>outputBuffer' := ob, outputIterator' := outputIterator' s1 + sz\<rparr>"
  obtain d where d: "skip_loop (dict' s2) 0 (Length m - 2) = Some d" and rd: "reachable d"
      and bd: "buffer d = buffer (dict' s2)" and ad: "absolutePosition (dict' s2) \<le> absolutePosition d"
    using skip_loop_ok [of "dict' s2"] r by (auto simp: s2_def s1_def)
  define s3 where "s3 = s2\<lparr>dict' := d\<rparr>"
  obtain st' where f: "find_next s3 = Some st'" and p: "reachable (dict' st')"
      "buffer (dict' st') = buffer (dict' s3)"
      "absolutePosition (dict' st') = absolutePosition (dict' s3) + 1"
      "length (matchCandidates' st') = length (matchCandidates' s3)"
      "outputBuffer' st' = outputBuffer' s3" "outputIterator' st' = outputIterator' s3"
      "controlWord' st' = controlWord' s3" "controlWordBit st' = controlWordBit s3"
      "controlWordPointer st' = controlWordPointer s3"
    using find_next_ok [of s3] rd l by (auto simp: s3_def s2_def s1_def)
  have "emit_match st m = Some st'"
    using b e d f
    by (simp add: emit_match_def Let_def s3_def s2_def s1_def bit_def)
  thus ?thesis using p bd ad ob sz by (simp add: s3_def s2_def s1_def)
qed

lemma GetMaxCompressedSize_val: "GetMaxCompressedSize n = 9 + n"
  by (simp add: GetMaxCompressedSize_def getHeaderSize_def getSizeCodedSize_def MaxInt_def)

lemma getHeaderSize_bounds: "3 \<le> getHeaderSize n" "getHeaderSize n \<le> 9"
  by (simp_all add: getHeaderSize_def getSizeCodedSize_def)

lemma encodeHeader_ok:
  assumes "9 \<le> length destination"
  shows "\<exists>ob. encodeHeader header mcs destination = Some ob \<and> length ob = length destination"
proof -
  have c: "getSizeCodedSize mcs = 1 \<or> getSizeCodedSize mcs = 2 \<or> getSizeCodedSize mcs = 4"
    by (rule getSizeCodedSize_cases)
  thus ?thesis using assms
    by (auto simp: encodeHeader_def Let_def put_def write_le_def)
qed

lemma copy_slice_ok:
  assumes "0 \<le> lo" "lo \<le> int (length dst)"
  shows "\<exists>ob. copy_slice dst lo (int (length dst)) src 0 = Some ob"
  using assms by (simp add: copy_slice_def Let_def)

lemma store_ok:
  assumes "GetMaxCompressedSize (int (length source)) \<le> int (length destination)"
  shows "\<exists>ob n. store source destination = Some (RESULT_OK, ob, n)"
proof -
  have l: "9 \<le> length destination" using assms by (simp add: GetMaxCompressedSize_val)
  obtain ob where e: "encodeHeader \<lparr>UncompressedSize = of_nat (length source),
        CompressedSize = word_of_int (getHeaderSize (GetMaxCompressedSize (int (length source)))
                                      + int (length source)),
        Version = VERSION, IsStored = True\<rparr> (GetMaxCompressedSize (int (length source))) destination
        = Some ob" and lo: "length ob = length destination"
    using encodeHeader_ok [OF l] by blast
  have "getHeaderSize (GetMaxCompressedSize (int (length source))) \<le> int (length ob)"
    using getHeaderSize_bounds(2) [of "GetMaxCompressedSize (int (length source))"] l lo by simp
  then obtain ob' where "copy_slice ob (getHeaderSize (GetMaxCompressedSize (int (length source))))
       (int (length ob)) source 0 = Some ob'"
    using copy_slice_ok [of "getHeaderSize (GetMaxCompressedSize (int (length source)))" ob source]
      getHeaderSize_bounds(1) [of "GetMaxCompressedSize (int (length source))"] by auto
  thus ?thesis using e by (simp add: store_def Let_def)
qed

text \<open>
  The invariant of the main loop: the dictionary is one the calls made so far have
  produced, on the source; the destination keeps its length; the control word in the
  making has its four bytes below the output position; and once the source is used up the
  four trailing bytes still fit below \<open>maxOutputEnd\<close>.
\<close>

definition enc_inv :: "byte list \<Rightarrow> nat \<Rightarrow> EncodeState \<Rightarrow> bool" where
  "enc_inv source L st \<longleftrightarrow>
     reachable (dict' st) \<and> buffer (dict' st) = source \<and> 1 \<le> Position (dict' st) \<and>
     length (outputBuffer' st) = L \<and> GetMaxCompressedSize (int (length source)) \<le> int L \<and>
     int (length (matchCandidates' st)) = MAX_MATCH_CANDIDATE_COUNT \<and>
     0 \<le> controlWordPointer st \<and> controlWordPointer st + WORD_SIZE \<le> outputIterator' st \<and>
     0 \<le> controlWordBit st \<and> controlWordBit st \<le> controlWordBitCount \<and>
     (Position (dict' st) - 1 < int (length source) \<or>
      outputIterator' st + TRAILING_DUMMY_SIZE \<le> GetMaxCompressedSize (int (length source)))"

lemma compress_step_ok:
  assumes inv: "enc_inv source L st" and more: "Position (dict' st) - 1 < int (length source)"
  shows "\<exists>r. compress_step source (GetMaxCompressedSize (int (length source))) st = Some r \<and>
           (case r of Inl st' \<Rightarrow> enc_inv source L st'
            | Inr st' \<Rightarrow> enc_inv source L st')"
proof (cases "outputIterator' st + 2 * WORD_SIZE + TRAILING_DUMMY_SIZE
                > GetMaxCompressedSize (int (length source))")
  case True
  thus ?thesis using inv by (simp add: compress_step_def)
next
  case False
  define M where "M = GetMaxCompressedSize (int (length source))"
  have room: "outputIterator' st + 12 \<le> M"
    using False by (simp add: M_def WORD_SIZE_def TRAILING_DUMMY_SIZE_def)
  have i: "reachable (dict' st)" "buffer (dict' st) = source" "1 \<le> Position (dict' st)"
      "length (outputBuffer' st) = L" "M \<le> int L"
      "int (length (matchCandidates' st)) = MAX_MATCH_CANDIDATE_COUNT"
      "0 \<le> controlWordPointer st" "controlWordPointer st + 4 \<le> outputIterator' st"
      "0 \<le> controlWordBit st" "controlWordBit st \<le> 31"
    using inv by (simp_all add: enc_inv_def M_def WORD_SIZE_def controlWordBitCount_def)
  obtain s1 where f1: "flush_control_word st = Some s1" and p1: "dict' s1 = dict' st"
      "length (outputBuffer' s1) = length (outputBuffer' st)"
      "matchCandidates' s1 = matchCandidates' st"
      "0 \<le> controlWordBit s1" "controlWordBit s1 < 31"
      "0 \<le> controlWordPointer s1" "controlWordPointer s1 + 4 \<le> outputIterator' s1"
      "outputIterator' s1 \<le> outputIterator' st + 4"
    using flush_control_word_ok [of st] i room
    by (auto simp: WORD_SIZE_def controlWordBitCount_def split: if_splits)
  obtain s2 where f2: "find_next s1 = Some s2" and p2: "reachable (dict' s2)"
      "buffer (dict' s2) = source"
      "absolutePosition (dict' s2) = absolutePosition (dict' st) + 1"
      "length (matchCandidates' s2) = length (matchCandidates' st)"
      "outputBuffer' s2 = outputBuffer' s1" "outputIterator' s2 = outputIterator' s1"
      "controlWordBit s2 = controlWordBit s1" "controlWordPointer s2 = controlWordPointer s1"
    using find_next_ok [of s1] i p1 by auto
  define m where "m = lazy_match (nextMatch s1) (nextMatch s2)"
  have "\<exists>s3. (if Length m = 0 then emit_literal source s2 else emit_match s2 m) = Some s3 \<and>
          reachable (dict' s3) \<and> buffer (dict' s3) = source \<and>
          absolutePosition (dict' s2) \<le> absolutePosition (dict' s3) \<and>
          length (matchCandidates' s3) = length (matchCandidates' s2) \<and>
          length (outputBuffer' s3) = length (outputBuffer' s2) \<and>
          outputIterator' s2 < outputIterator' s3 \<and>
          outputIterator' s3 \<le> outputIterator' s2 + 4 \<and>
          controlWordBit s3 = controlWordBit s2 \<and>
          controlWordPointer s3 = controlWordPointer s2"
  proof (cases "Length m = 0")
    case True
    have "0 \<le> Position (dict' s2) - 2" "Position (dict' s2) - 2 < int (length source)"
      using p2(3) i(3) more by (simp_all add: Position_def)
    moreover have "0 \<le> outputIterator' s2" "outputIterator' s2 + 4 \<le> int (length (outputBuffer' s2))"
      using p2 p1 i room by simp_all
    ultimately show ?thesis
      using emit_literal_ok [of s2 source] True p2 by auto
  next
    case False
    have "0 \<le> outputIterator' s2" "outputIterator' s2 + 4 \<le> int (length (outputBuffer' s2))"
      using p2 p1 i room by simp_all
    thus ?thesis
      using emit_match_ok [of s2 m] False p2 p1 i by auto
  qed
  then obtain s3 where f3: "(if Length m = 0 then emit_literal source s2 else emit_match s2 m) = Some s3"
      and p3: "reachable (dict' s3)" "buffer (dict' s3) = source"
      "absolutePosition (dict' s2) \<le> absolutePosition (dict' s3)"
      "length (matchCandidates' s3) = length (matchCandidates' s2)"
      "length (outputBuffer' s3) = length (outputBuffer' s2)"
      "outputIterator' s2 < outputIterator' s3"
      "outputIterator' s3 \<le> outputIterator' s2 + 4"
      "controlWordBit s3 = controlWordBit s2"
      "controlWordPointer s3 = controlWordPointer s2"
    by blast
  define s4 where "s4 = s3\<lparr>controlWordBit := controlWordBit s3 + 1\<rparr>"
  have e: "compress_step source M st = Some (Inr s4)"
    using False f1 f2 f3
    by (auto simp: compress_step_def Let_def M_def [symmetric] m_def [symmetric] s4_def
          split: if_splits)
  have "enc_inv source L s4"
    unfolding enc_inv_def M_def [symmetric]
    using p3 p2 p1 i room
    by (simp add: s4_def Position_def WORD_SIZE_def TRAILING_DUMMY_SIZE_def controlWordBitCount_def)
  thus ?thesis using e by (simp add: M_def)
qed

lemma compress_loop_ok:
  assumes "enc_inv source L st" "M = GetMaxCompressedSize (int (length source))"
  shows "\<exists>r. compress_loop source M st = Some r \<and>
           (case r of Inl st' \<Rightarrow> enc_inv source L st'
            | Inr st' \<Rightarrow> enc_inv source L st' \<and> \<not> Position (dict' st') - 1 < int (length source))"
  using assms
proof (induction source M st rule: compress_loop.induct)
  case (1 source M st)
  show ?case
  proof (cases "Position (dict' st) - 1 < int (length source)")
    case False
    thus ?thesis using "1.prems" by (subst compress_loop.simps) simp
  next
    case True
    obtain r where s: "compress_step source M st = Some r"
      and c: "case r of Inl st' \<Rightarrow> enc_inv source L st' | Inr st' \<Rightarrow> enc_inv source L st'"
      using compress_step_ok [OF "1.prems"(1) True] "1.prems"(2) by auto
    show ?thesis
    proof (cases r)
      case (Inl st')
      thus ?thesis using True s c by (subst compress_loop.simps) simp
    next
      case (Inr st')
      hence i': "enc_inv source L st'" using c by simp
      from "1.IH" [OF True s Inr i' "1.prems"(2)]
      show ?thesis using True s Inr by (subst compress_loop.simps) simp
    qed
  qed
qed

lemma SetBuffer_zero:
  "SetBuffer Dictionary0 b = Some
     \<lparr>buffer = b, bufferBase = 0,
      matchableBufferLength =
        (if int (length b) > TAIL_LENGTH + MIN_MATCH_LENGTH
         then int (length b) - (TAIL_LENGTH + MIN_MATCH_LENGTH) else 0),
      absolutePosition = 0,
      hashTable = replicate (nat HASH_TABLE_SIZE) INVALID_POSITION,
      children = replicate (nat CHILD_COUNT) 0\<rparr>"
proof -
  have "int (length (replicate (nat HASH_TABLE_SIZE) (0 :: int))) = HASH_TABLE_SIZE"
    by (simp add: HASH_TABLE_SIZE_def)
  from update_first_all [OF this, of "\<lambda>_. INVALID_POSITION"]
  show ?thesis
    by (simp add: SetBuffer_def Let_def Dictionary_initialize_def Dictionary0_def)
qed

lemma Compress_total:
  assumes r: "reachable (dict c)"
    and n: "length source \<noteq> 0"
    and l: "GetMaxCompressedSize (int (length source)) \<le> int (length destination)"
  shows "\<exists>c' out n. Compress c source destination cs = Some (RESULT_OK, c', out, n) \<and>
           reachable (dict c')"
proof -
  define M where "M = GetMaxCompressedSize (int (length source))"
  define H where "H = getHeaderSize M"
  have M9: "M = 9 + int (length source)" by (simp add: M_def GetMaxCompressedSize_val)
  have Hb: "3 \<le> H" "H \<le> 9" using getHeaderSize_bounds [of M] by (simp_all add: H_def)
  obtain d0 where sb: "SetBuffer (dict c) source = Some d0" and d0: "dict_ok d0" "buffer d0 = source"
      "absolutePosition d0 = 0"
    using SetBuffer_ok [OF reachable_dict_ok [OF r], of source] by blast
  have r0: "reachable d0" using reachable.set [OF r sb] .
  obtain d1 where sk: "Skip d0 = Some d1" and d1: "buffer d1 = source" "absolutePosition d1 = 1"
    using Skip_ok [OF d0(1)] d0 by auto
  have r1: "reachable d1" using reachable.skip [OF r0 sk] .
  define st0 where "st0 = \<lparr>dict' = d1, outputBuffer' = destination, outputIterator' = H + WORD_SIZE,
      controlWord' = controlWordGuardBit, controlWordBit = 0, controlWordPointer = H,
      nextMatch = \<lparr>Length = 0, Offset = 0\<rparr>,
      matchCandidates' = replicate (nat MAX_MATCH_CANDIDATE_COUNT) \<lparr>Length = 0, Offset = 0\<rparr>\<rparr>"
  have i0: "enc_inv source (length destination) st0"
    using r1 d1 l n Hb
    by (simp add: enc_inv_def st0_def Position_def MAX_MATCH_CANDIDATE_COUNT_def
        controlWordBitCount_def WORD_SIZE_def)
  obtain res where cl: "compress_loop source M st0 = Some res"
    and cr: "case res of Inl st' \<Rightarrow> enc_inv source (length destination) st'
       | Inr st' \<Rightarrow> enc_inv source (length destination) st' \<and>
                     \<not> Position (dict' st') - 1 < int (length source)"
    using compress_loop_ok [OF i0 M_def] by blast
  have e: "Compress c source destination cs =
      (case res of
         Inl st \<Rightarrow> do {
           (res, ob, n) \<leftarrow> store source (outputBuffer' st);
           Some (res, c\<lparr>dict := dict' st\<rparr>, ob, n)
         }
       | Inr st \<Rightarrow> do {
           ob \<leftarrow> FastWrite (outputBuffer' st) (controlWordPointer st) (controlWord' st) WORD_SIZE;
           ob \<leftarrow> FastWrite ob (outputIterator' st) 0 TRAILING_DUMMY_SIZE;
           ob \<leftarrow> encodeHeader \<lparr>UncompressedSize = of_nat (length source),
                     CompressedSize = word_of_int (outputIterator' st + TRAILING_DUMMY_SIZE),
                     Version = VERSION, IsStored = False\<rparr> M ob;
           Some (RESULT_OK, c\<lparr>dict := dict' st\<rparr>, ob, outputIterator' st + TRAILING_DUMMY_SIZE)
         })"
    using n l sb sk cl
    by (simp add: Compress_def Let_def M_def [symmetric] H_def [symmetric] st0_def [symmetric]
        del: bind_eq_Some_conv bind_eq_None_conv cong: sum.case_cong)
  show ?thesis
  proof (cases res)
    case (Inl st)
    hence i: "enc_inv source (length destination) st" using cr by simp
    have "GetMaxCompressedSize (int (length source)) \<le> int (length (outputBuffer' st))"
      using i by (simp add: enc_inv_def)
    then obtain ob k where "store source (outputBuffer' st) = Some (RESULT_OK, ob, k)"
      using store_ok by blast
    thus ?thesis unfolding e using Inl i by (simp add: enc_inv_def)
  next
    case (Inr st)
    hence i: "enc_inv source (length destination) st"
      and fin: "\<not> Position (dict' st) - 1 < int (length source)" using cr by simp_all
    have f: "reachable (dict' st)" "length (outputBuffer' st) = length destination"
        "0 \<le> controlWordPointer st" "controlWordPointer st + 4 \<le> outputIterator' st"
        "outputIterator' st + 4 \<le> M" "M \<le> int (length destination)"
      using i fin by (simp_all add: enc_inv_def M_def WORD_SIZE_def TRAILING_DUMMY_SIZE_def)
    obtain ob1 where w1: "FastWrite (outputBuffer' st) (controlWordPointer st) (controlWord' st) WORD_SIZE = Some ob1"
        and l1: "length ob1 = length destination"
      using FastWrite_ok [of "controlWordPointer st" "outputBuffer' st" WORD_SIZE "controlWord' st"] f
      by (auto simp: WORD_SIZE_def)
    obtain ob2 where w2: "FastWrite ob1 (outputIterator' st) 0 TRAILING_DUMMY_SIZE = Some ob2"
        and l2: "length ob2 = length destination"
      using FastWrite_ok [of "outputIterator' st" ob1 TRAILING_DUMMY_SIZE 0] f l1
      by (auto simp: WORD_SIZE_def TRAILING_DUMMY_SIZE_def)
    have "9 \<le> length ob2" using l2 f(6) M9 by simp
    from encodeHeader_ok [OF this]
    obtain ob3 where "encodeHeader \<lparr>UncompressedSize = of_nat (length source),
                     CompressedSize = word_of_int (outputIterator' st + TRAILING_DUMMY_SIZE),
                     Version = VERSION, IsStored = False\<rparr> M ob2 = Some ob3"
      by blast
    thus ?thesis unfolding e using Inr w1 w2 f(1) by simp
  qed
qed

lemma ex_Compress_stored:
  "\<exists>c'. Compress Compressor0 [1, 2, 3] (replicate 12 0) 0
       = Some (RESULT_OK, c', [128, 3, 6, 1, 2, 3, 0, 0, 0, 0, 0, 0], 6)"
  apply (simp add: Compress_def Compressor0_def SetBuffer_zero Skip_def FindMatches_def Let_def
      GetMaxCompressedSize_val getHeaderSize_def getSizeCodedSize_def TAIL_LENGTH_def
      WORD_SIZE_def MIN_MATCH_LENGTH_def)
  apply (subst compress_loop.simps)
  apply (simp add: Position_def compress_step_def WORD_SIZE_def TRAILING_DUMMY_SIZE_def
      store_def GetMaxCompressedSize_val getHeaderSize_def getSizeCodedSize_def Let_def
      encodeHeader_def put_def VERSION_def copy_slice_def)
  apply code_simp
  done

subsection \<open>A run of the compressor\<close>

text \<open>
  A source of twenty equal bytes, which \<open>Compress\<close> compresses rather than stores.
  \<open>rt_d k\<close> is the dictionary after \<open>SetBuffer\<close> and \<open>k\<close> calls of \<open>FindMatches\<close> or
  \<open>Skip\<close>; from position 9 on the calls only count the position up.
\<close>

definition rt_src :: "byte list" where "rt_src = replicate 20 97"

definition rt_state :: "int \<Rightarrow> int list \<Rightarrow> int list \<Rightarrow> Dictionary" where
  "rt_state a ht ch =
     \<lparr>buffer = rt_src, bufferBase = 0, matchableBufferLength = 9, absolutePosition = a,
      hashTable = ht, children = ch\<rparr>"

definition rt_d0 :: Dictionary where "rt_d0 = rt_state 0 ex_ht ex_ch"

definition rt_d1 :: Dictionary where
  "rt_d1 = rt_state 1 (ex_ht[381794 := 0])
     (ex_ch[0 := - 1, 1 := - 1])"

definition rt_d2 :: Dictionary where
  "rt_d2 = rt_state 2 (ex_ht[381794 := 1])
     (ex_ch[0 := - 1, 1 := - 1, 2 := - 1, 3 := - 1])"

definition rt_d3 :: Dictionary where
  "rt_d3 = rt_state 3 (ex_ht[381794 := 2])
     (ex_ch[0 := - 1, 1 := - 1, 2 := - 1, 3 := - 1, 4 := - 1, 5 := - 1])"

definition rt_d4 :: Dictionary where
  "rt_d4 = rt_state 4 (ex_ht[381794 := 3])
     (ex_ch[0 := - 1, 1 := - 1, 2 := - 1, 3 := - 1, 4 := - 1, 5 := - 1, 6 := - 1, 7 := - 1])"

definition rt_d5 :: Dictionary where
  "rt_d5 = rt_state 5 (ex_ht[381794 := 4])
     (ex_ch[0 := - 1, 1 := - 1, 2 := - 1, 3 := - 1, 4 := - 1, 5 := - 1, 6 := - 1, 7 := - 1, 8 := - 1, 9 := - 1])"

definition rt_d6 :: Dictionary where
  "rt_d6 = rt_state 6 (ex_ht[381794 := 5])
     (ex_ch[0 := - 1, 1 := - 1, 2 := - 1, 3 := - 1, 4 := - 1, 5 := - 1, 6 := - 1, 7 := - 1, 8 := - 1, 9 := - 1, 10 := - 1, 11 := - 1])"

definition rt_d7 :: Dictionary where
  "rt_d7 = rt_state 7 (ex_ht[381794 := 6])
     (ex_ch[0 := - 1, 1 := - 1, 2 := - 1, 3 := - 1, 4 := - 1, 5 := - 1, 6 := - 1, 7 := - 1, 8 := - 1, 9 := - 1, 10 := - 1, 11 := - 1, 12 := - 1, 13 := - 1])"

definition rt_d8 :: Dictionary where
  "rt_d8 = rt_state 8 (ex_ht[381794 := 7])
     (ex_ch[0 := - 1, 1 := - 1, 2 := - 1, 3 := - 1, 4 := - 1, 5 := - 1, 6 := - 1, 7 := - 1, 8 := - 1, 9 := - 1, 10 := - 1, 11 := - 1, 12 := - 1, 13 := - 1, 14 := - 1, 15 := - 1])"

definition rt_d9 :: Dictionary where
  "rt_d9 = rt_state 9 (ex_ht[381794 := 8])
     (ex_ch[0 := - 1, 1 := - 1, 2 := - 1, 3 := - 1, 4 := - 1, 5 := - 1, 6 := - 1, 7 := - 1, 8 := - 1, 9 := - 1, 10 := - 1, 11 := - 1, 12 := - 1, 13 := - 1, 14 := - 1, 15 := - 1, 16 := - 1, 17 := - 1])"

definition rt_past :: "int \<Rightarrow> Dictionary" where
  "rt_past a = rt_state a (ex_ht[381794 := 8])
     (ex_ch[0 := - 1, 1 := - 1, 2 := - 1, 3 := - 1, 4 := - 1, 5 := - 1, 6 := - 1, 7 := - 1, 8 := - 1, 9 := - 1, 10 := - 1, 11 := - 1, 12 := - 1, 13 := - 1, 14 := - 1, 15 := - 1, 16 := - 1, 17 := - 1])"

definition rt_out :: "Match list" where
  "rt_out = replicate 128 \<lparr>Length = 0, Offset = 0\<rparr>"

lemma rt_at: "at rt_src i = (if 0 \<le> i \<and> i < 20 then Some 97 else None)"
proof (cases "0 \<le> i \<and> i < 20")
  case True
  hence "nat i < 20" by linarith
  thus ?thesis using True by (simp add: at_def rt_src_def)
next
  case False
  thus ?thesis by (auto simp: at_def rt_src_def)
qed

lemma rt_hash0: "hash (replicate 20 97) 0 = Some 6851697779849679714"
  by code_simp

lemma rt_hash: "0 \<le> i \<Longrightarrow> i < 18 \<Longrightarrow> hash rt_src i = Some 6851697779849679714"
  using rt_hash0 by (simp add: hash_def rt_at rt_src_def [symmetric] Let_def)

lemma rt_bucket:
  "uint ((6851697779849679714 :: uint) mod word_of_int HASH_TABLE_SIZE) = 381794"
  by code_simp

lemma rt_len: "length rt_src = 20" by (simp add: rt_src_def)

lemma rt_SetBuffer: "SetBuffer Dictionary0 rt_src = Some rt_d0"
  by (simp add: SetBuffer_zero rt_d0_def rt_state_def ex_ht_def ex_ch_def rt_len ex_consts)

lemmas rt_unfold = FindMatches_def computeRelativePosition_def Let_def rt_state_def rt_hash
  rt_bucket rt_len ex_consts ex_len ex_ne ex_nth at_def put_def go_mod_def find_step_def
  finish_tree_def add_candidate_def delete_node_def descend_def rt_at

lemma rt_find_0: "FindMatches rt_d0 None = Some (rt_d1, None, 0)"
  unfolding rt_d0_def rt_d1_def
  apply (simp add: rt_unfold)
  apply (subst find_loop.simps)
  apply (simp add: rt_unfold)
  done

lemma rt_find_1:
  "FindMatches rt_d1 (Some (rt_out)) =
     Some (rt_d2, Some (rt_out[0 := \<lparr>Length = 11, Offset = 1\<rparr>]), 1)"
  unfolding rt_d1_def rt_d2_def rt_out_def
  apply (simp add: rt_unfold)
  apply (subst find_loop.simps)
  apply (simp add: rt_unfold)
  apply (subst match_extend.simps, simp add: rt_at)+
  apply (simp add: rt_unfold)
  done

lemma rt_find_2:
  "FindMatches rt_d2 (Some (rt_out[0 := \<lparr>Length = 11, Offset = 1\<rparr>])) =
     Some (rt_d3, Some (rt_out[0 := \<lparr>Length = 10, Offset = 1\<rparr>]), 1)"
  unfolding rt_d2_def rt_d3_def rt_out_def
  apply (simp add: rt_unfold)
  apply (subst find_loop.simps)
  apply (simp add: rt_unfold)
  apply (subst match_extend.simps, simp add: rt_at)+
  apply (simp add: rt_unfold)
  done

lemma rt_find_3:
  "FindMatches rt_d3 None = Some (rt_d4, None, 0)"
  unfolding rt_d3_def rt_d4_def
  apply (simp add: rt_unfold)
  apply (subst find_loop.simps)
  apply (simp add: rt_unfold)
  apply (subst match_extend.simps, simp add: rt_at)+
  apply (simp add: rt_unfold)
  done

lemma rt_find_4:
  "FindMatches rt_d4 None = Some (rt_d5, None, 0)"
  unfolding rt_d4_def rt_d5_def
  apply (simp add: rt_unfold)
  apply (subst find_loop.simps)
  apply (simp add: rt_unfold)
  apply (subst match_extend.simps, simp add: rt_at)+
  apply (simp add: rt_unfold)
  done

lemma rt_find_5:
  "FindMatches rt_d5 None = Some (rt_d6, None, 0)"
  unfolding rt_d5_def rt_d6_def
  apply (simp add: rt_unfold)
  apply (subst find_loop.simps)
  apply (simp add: rt_unfold)
  apply (subst match_extend.simps, simp add: rt_at)+
  apply (simp add: rt_unfold)
  done

lemma rt_find_6:
  "FindMatches rt_d6 None = Some (rt_d7, None, 0)"
  unfolding rt_d6_def rt_d7_def
  apply (simp add: rt_unfold)
  apply (subst find_loop.simps)
  apply (simp add: rt_unfold)
  apply (subst match_extend.simps, simp add: rt_at)+
  apply (simp add: rt_unfold)
  done

lemma rt_find_7:
  "FindMatches rt_d7 None = Some (rt_d8, None, 0)"
  unfolding rt_d7_def rt_d8_def
  apply (simp add: rt_unfold)
  apply (subst find_loop.simps)
  apply (simp add: rt_unfold)
  apply (subst match_extend.simps, simp add: rt_at)+
  apply (simp add: rt_unfold)
  done

lemma rt_find_8:
  "FindMatches rt_d8 None = Some (rt_d9, None, 0)"
  unfolding rt_d8_def rt_d9_def
  apply (simp add: rt_unfold)
  apply (subst find_loop.simps)
  apply (simp add: rt_unfold)
  apply (subst match_extend.simps, simp add: rt_at)+
  apply (simp add: rt_unfold)
  done

lemma rt_d9_past: "rt_d9 = rt_past 9"
  by (simp add: rt_d9_def rt_past_def)

lemma rt_find_past:
  "9 \<le> a \<Longrightarrow> FindMatches (rt_past a) out = Some (rt_past (a + 1), out, 0)"
  by (simp add: FindMatches_def rt_past_def rt_state_def)

lemma rt_abs:
  "absolutePosition rt_d0 = 0" "absolutePosition rt_d1 = 1" "absolutePosition rt_d2 = 2"
  "absolutePosition rt_d3 = 3" "absolutePosition rt_d4 = 4" "absolutePosition rt_d5 = 5"
  "absolutePosition rt_d6 = 6" "absolutePosition rt_d7 = 7" "absolutePosition rt_d8 = 8"
  "absolutePosition rt_d9 = 9" "absolutePosition (rt_past a) = a"
  by (simp_all add: rt_d0_def rt_d1_def rt_d2_def rt_d3_def rt_d4_def rt_d5_def rt_d6_def
      rt_d7_def rt_d8_def rt_d9_def rt_past_def rt_state_def)

lemma rt_out_facts:
  "length rt_out = 128" "take (Suc 0) (rt_out[0 := m]) = [m]" "rt_out[0 := m, 0 := m'] = rt_out[0 := m']"
  by (simp_all add: rt_out_def take_Suc_conv_app_nth)

lemmas rt_find = rt_find_0 rt_find_1 rt_find_2 rt_find_3 rt_find_4 rt_find_5 rt_find_6
  rt_find_7 rt_find_8 rt_d9_past rt_find_past

lemmas rt_step = Skip_def rt_find rt_abs rt_len Let_def
  Position_def compress_step_def WORD_SIZE_def TRAILING_DUMMY_SIZE_def flush_control_word_def
  find_next_def slice_to_def getBestMatch_def lazy_match_def getMatchCodedSize_def
  matchCode_def emit_literal_def emit_match_def encodeMatch_def FastWrite_def write_le_def
  put_def rt_at controlWordBitCount_def controlWordGuardBit_def
  MAX_MATCH_CANDIDATE_COUNT_def MIN_MATCH_LENGTH_def rt_out_facts skip_loop.simps

definition rt_st0 :: EncodeState where
  "rt_st0 = \<lparr>dict' = rt_d1, outputBuffer' = replicate 29 0, outputIterator' = 7,
     controlWord' = controlWordGuardBit, controlWordBit = 0, controlWordPointer = 3,
     nextMatch = \<lparr>Length = 0, Offset = 0\<rparr>, matchCandidates' = rt_out\<rparr>"

definition rt_st10 :: EncodeState where
  "rt_st10 = \<lparr>dict' = rt_past 21,
     outputBuffer' = [0, 0, 0, 0, 0, 0, 0, 97, 98, 0, 97, 97, 97, 97, 97, 97, 97, 97, 0, 0, 0, 0,
                      0, 0, 0, 0, 0, 0, 0],
     outputIterator' = 18,
     controlWord' = 2147483650, controlWordBit = 10, controlWordPointer = 3,
     nextMatch = \<lparr>Length = 0, Offset = 0\<rparr>,
     matchCandidates' = rt_out[0 := \<lparr>Length = 10, Offset = 1\<rparr>]\<rparr>"

lemma rt_loop: "compress_loop rt_src 29 rt_st0 = Some (Inr rt_st10)"
  unfolding rt_st0_def rt_st10_def
  apply (subst compress_loop.simps, simp add: rt_step)
  apply (subst compress_loop.simps, simp add: rt_step)
  apply (subst compress_loop.simps, simp add: rt_step)
  apply (subst compress_loop.simps, simp add: rt_step)
  apply (subst compress_loop.simps, simp add: rt_step)
  apply (subst compress_loop.simps, simp add: rt_step)
  apply (subst compress_loop.simps, simp add: rt_step)
  apply (subst compress_loop.simps, simp add: rt_step)
  apply (subst compress_loop.simps, simp add: rt_step)
  apply (subst compress_loop.simps, simp add: rt_step)
  apply (subst compress_loop.simps, simp add: rt_step)
  apply code_simp
  done

lemma rt_Compress:
  "Compress Compressor0 rt_src (replicate 29 0) 0
     = Some (RESULT_OK, \<lparr>dict = rt_past 21\<rparr>,
             [0, 20, 22, 2, 0, 0, 128, 97, 98, 0, 97, 97, 97, 97, 97, 97, 97, 97, 0, 0, 0, 0,
              0, 0, 0, 0, 0, 0, 0], 22)"
  apply (simp add: Compress_def Compressor0_def rt_SetBuffer Skip_def rt_find_0
      GetMaxCompressedSize_val getHeaderSize_def getSizeCodedSize_def rt_len Let_def
      WORD_SIZE_def MAX_MATCH_CANDIDATE_COUNT_def rt_out_def [symmetric]
      rt_st0_def [symmetric] rt_loop)
  apply (simp add: rt_st10_def FastWrite_def write_le_def WORD_SIZE_def TRAILING_DUMMY_SIZE_def
      encodeHeader_def Let_def getSizeCodedSize_def put_def VERSION_def)
  apply code_simp
  done

lemma rt_Decompress_zero:
  "Decompress Decompressor0
     (take 22 [0, 20, 22, 2, 0, 0, 128, 97, 98, 0, 97, 97, 97, 97, 97, 97, 97, 97, 0, 0, 0, 0,
               0, 0, 0, 0, 0, 0, 0]) (replicate 20 0) = Some None"
  by code_simp

lemma rt_Decompress_initialized:
  "Decompress (Decompressor_initialize Decompressor0)
     (take 22 [0, 20, 22, 2, 0, 0, 128, 97, 98, 0, 97, 97, 97, 97, 97, 97, 97, 97, 0, 0, 0, 0,
               0, 0, 0, 0, 0, 0, 0]) (replicate 20 0) = Some (Some (RESULT_OK, replicate 20 97))"
  by code_simp

section \<open>The claims about the compressor\<close>

text \<open>
  Claim C9. For a compressor whose dictionary is the zero value or has been through earlier
  calls, \<open>Compress\<close> returns (it does not panic), and it returns
  \<open>RESULT_ERROR_BUFFER_TOO_SMALL\<close> exactly when the source is empty or the destination is
  shorter than \<open>GetMaxCompressedSize\<close> of the source length; every other call returns
  \<open>RESULT_OK\<close>, also when the loop gives up and the block is stored. The compressor is
  left with a dictionary of the same kind.
\<close>

theorem Compress_result:
  assumes "reachable (dict c)"
  shows "\<exists>r c' out n. Compress c source destination cs = Some (r, c', out, n) \<and>
           reachable (dict c') \<and>
           (r = RESULT_ERROR_BUFFER_TOO_SMALL \<longleftrightarrow>
              length source = 0 \<or>
              int (length destination) < GetMaxCompressedSize (int (length source))) \<and>
           (r = RESULT_ERROR_BUFFER_TOO_SMALL \<or> r = RESULT_OK)"
proof (cases "length source = 0 \<or>
              int (length destination) < GetMaxCompressedSize (int (length source))")
  case True
  hence "Compress c source destination cs = Some (RESULT_ERROR_BUFFER_TOO_SMALL, c, destination, cs)"
    by (auto simp: Compress_def Let_def)
  thus ?thesis using True assms by simp
next
  case False
  hence "length source \<noteq> 0"
      "GetMaxCompressedSize (int (length source)) \<le> int (length destination)" by simp_all
  from Compress_total [OF assms this, of cs] False show ?thesis by auto
qed

theorem Compress_result_witness:
  "reachable (dict Compressor0) \<and>
   (\<exists>c'. Compress Compressor0 [1, 2, 3] (replicate 12 0) 0
      = Some (RESULT_OK, c', [128, 3, 6, 1, 2, 3, 0, 0, 0, 0, 0, 0], 6)) \<and>
   length [1, 2, 3 :: byte] \<noteq> 0 \<and>
   \<not> int (length (replicate 12 (0 :: byte))) < GetMaxCompressedSize (int (length [1, 2, 3 :: byte]))"
  using Compress_result [of Compressor0 "[1, 2, 3]" "replicate 12 0" 0] ex_Compress_stored
    reachable.zero
  by (simp add: Compressor0_def GetMaxCompressedSize_val)

text \<open>
  Claim C1 fails on the code as it is: nothing calls the \<open>initialize\<close> method of the
  decompressor, so its two tables are nil. \<open>Compress\<close> turns twenty bytes 97 into a block
  of 22 bytes and returns \<open>RESULT_OK\<close>; \<open>Decompress\<close> of the zero-value decompressor on
  these 22 bytes panics at the first literal, where it indexes \<open>literalRunLengthTable\<close>
  (the value \<open>Some None\<close> of the model). With the tables that \<open>initialize\<close> would set, the
  same block gives back the source.
\<close>

theorem Decompress_zero_value_panics:
  "Compress Compressor0 (replicate 20 97) (replicate 29 0) 0
     = Some (RESULT_OK, \<lparr>dict = rt_past 21\<rparr>,
             [0, 20, 22, 2, 0, 0, 128, 97, 98, 0, 97, 97, 97, 97, 97, 97, 97, 97, 0, 0, 0, 0,
              0, 0, 0, 0, 0, 0, 0], 22) \<and>
   Decompress Decompressor0
     (take 22 [0, 20, 22, 2, 0, 0, 128, 97, 98, 0, 97, 97, 97, 97, 97, 97, 97, 97, 0, 0, 0, 0,
               0, 0, 0, 0, 0, 0, 0]) (replicate 20 0) = Some None \<and>
   Decompress (Decompressor_initialize Decompressor0)
     (take 22 [0, 20, 22, 2, 0, 0, 128, 97, 98, 0, 97, 97, 97, 97, 97, 97, 97, 97, 0, 0, 0, 0,
               0, 0, 0, 0, 0, 0, 0]) (replicate 20 0) = Some (Some (RESULT_OK, replicate 20 97))"
  using rt_Compress rt_Decompress_zero rt_Decompress_initialized
  by (simp add: rt_src_def)

end
